theory Spec2Isabelle
  imports Main "HOL-Library.Multiset"
begin

section \<open>The animal guessing game of HW3-4.cpp\<close>

text \<open>
  The file HW3-4.cpp holds two versions of the same program.  In the first one the class
  \<^verbatim>\<open>AnimalGame\<close> owns the root pointer itself; in the second one the root lives in a class
  \<^verbatim>\<open>AnimalTree\<close> and \<^verbatim>\<open>AnimalGame\<close> reaches it through \<^verbatim>\<open>getRoot\<close>.  The bodies of
  \<^verbatim>\<open>resetToInitialState\<close>, \<^verbatim>\<open>askQuestions\<close>, \<^verbatim>\<open>learnNewAnimal\<close> and \<^verbatim>\<open>collectAnimals\<close>
  are the same text in both, so one embedding covers both.

  The program works on heap objects through pointers (\<^verbatim>\<open>std::unique_ptr<Node>\<close> fields, a raw
  \<^verbatim>\<open>Node*\<close> cursor) and mutates them in place, so the embedding uses an explicit store:
  a map from addresses to \<^verbatim>\<open>Node\<close> objects.
\<close>

subsection \<open>Data\<close>

type_synonym addr = nat

text \<open>
  \<^verbatim>\<open>class Node { std::string question; std::unique_ptr<Node> yes, no; std::unique_ptr<Animal> animal; }\<close>.
  A \<^verbatim>\<open>unique_ptr<Node>\<close> is \<open>None\<close> (null) or the address of the owned node.  The only
  \<^verbatim>\<open>Animal\<close> is a \<^verbatim>\<open>DynamicAnimal\<close>, an object holding one name; the field \<open>animal\<close> is
  \<open>None\<close> (null) or the name held by the owned object.
\<close>

record node =
  question :: string
  yes :: "addr option"
  no :: "addr option"
  animal :: "string option"

text \<open>\<^verbatim>\<open>Node(const std::string& question)\<close> and \<^verbatim>\<open>Node(std::unique_ptr<Animal> animal)\<close>.\<close>

definition Node_question :: "string \<Rightarrow> node" where
  "Node_question q = \<lparr>question = q, yes = None, no = None, animal = None\<rparr>"

definition Node_animal :: "string option \<Rightarrow> node" where
  "Node_animal an = \<lparr>question = [], yes = None, no = None, animal = an\<rparr>"

text \<open>\<^verbatim>\<open>bool isLeaf() const { return animal != nullptr; }\<close>\<close>

definition isLeaf :: "node \<Rightarrow> bool" where
  "isLeaf n = (animal n \<noteq> None)"

text \<open>
  The state of the process: the store of \<^verbatim>\<open>Node\<close> objects, the next address the allocator
  hands out, the field \<^verbatim>\<open>root\<close> of the tree, and the two console streams.  An entry of
  \<open>stdin\<close> is what the user types at one prompt (one token for \<^verbatim>\<open>std::cin >> answer\<close>, one
  line for \<^verbatim>\<open>std::getline\<close>); \<open>stdout\<close> is the text written so far.
\<close>

record state =
  heap :: "addr \<Rightarrow> node option"
  brk :: addr
  root :: "addr option"
  stdin :: "string list"
  stdout :: string

text \<open>
  C++ leaves the dereference of a null pointer and the use of a destroyed object undefined.
  The embedding makes both visible as a fault.  A call has one of three results:
  \<open>None\<close> (it never returns), \<open>Some (Inl f)\<close> (undefined behaviour \<open>f\<close>), or \<open>Some (Inr x)\<close>
  (it returns \<open>x\<close>).
\<close>

datatype fault = NullDereference | UseAfterFree

type_synonym 'a result = "(fault + 'a) option"

definition andThen :: "'a result \<Rightarrow> ('a \<Rightarrow> 'b result) \<Rightarrow> 'b result" where
  "andThen m f = (case m of None \<Rightarrow> None | Some (Inl e) \<Rightarrow> Some (Inl e) | Some (Inr x) \<Rightarrow> f x)"

lemma andThen_mono [partial_function_mono]:
  assumes "mono_option B" and "\<And>y. mono_option (\<lambda>f. C y f)"
  shows "mono_option (\<lambda>f. andThen (B f) (\<lambda>y. C y f))"
proof -
  have eq: "\<And>m g. andThen m g = Option.bind m (\<lambda>r. case r of Inl e \<Rightarrow> Some (Inl e) | Inr x \<Rightarrow> g x)"
    by (simp add: andThen_def split: option.splits sum.splits)
  have "mono_option (\<lambda>f. case r of Inl e \<Rightarrow> Some (Inl e) | Inr x \<Rightarrow> C x f)" for r
    by (cases r) (simp_all add: option.const_mono assms(2))
  then have "mono_option (\<lambda>f. Option.bind (B f) (\<lambda>r. case r of Inl e \<Rightarrow> Some (Inl e) | Inr x \<Rightarrow> C x f))"
    by (rule bind_mono [OF assms(1)])
  then show ?thesis by (simp only: eq)
qed

definition deref :: "(addr \<Rightarrow> node option) \<Rightarrow> addr option \<Rightarrow> fault + node" where
  "deref h p = (case p of None \<Rightarrow> Inl NullDereference
               | Some a \<Rightarrow> (case h a of None \<Rightarrow> Inl UseAfterFree | Some n \<Rightarrow> Inr n))"

subsection \<open>Console\<close>

definition nl :: string where
  "nl = [CHR 0x0A]"

definition please :: string where
  "please = ''Please answer '' @ [CHR 0x27] @ ''yes'' @ [CHR 0x27] @ '' or ''
            @ [CHR 0x27] @ ''no'' @ [CHR 0x27] @ ''.'' @ nl"

text \<open>The texts the program writes.\<close>

definition prompt_question :: "string \<Rightarrow> string" where
  "prompt_question q = q @ '' (yes/no): ''"

definition prompt_guess :: "string \<Rightarrow> string" where
  "prompt_guess name = ''Is it a '' @ name @ ''? (yes/no): ''"

definition msg_yay :: string where
  "msg_yay = ''Yay! I guessed it right!'' @ nl"

definition msg_give_up :: string where
  "msg_give_up = ''I give up! What is your animal? ''"

definition prompt_distinguish :: "string \<Rightarrow> string \<Rightarrow> string" where
  "prompt_distinguish newAnimalName oldName =
     ''What question distinguishes a '' @ newAnimalName @ '' from a '' @ oldName @ ''?'' @ nl"

definition prompt_answer :: "string \<Rightarrow> string" where
  "prompt_answer newAnimalName =
     ''For a '' @ newAnimalName @ '', what is the answer to that question? (yes/no): ''"

definition msg_got_it :: string where
  "msg_got_it = ''Got it! I'' @ [CHR 0x27] @ ''ll remember that for next time.'' @ nl"

definition msg_animals :: "string list \<Rightarrow> string" where
  "msg_animals animals =
     ''Animals currently in memory:'' @ nl @ concat (map (\<lambda>a. ''- '' @ a @ nl) animals)"

definition print :: "string \<Rightarrow> state \<Rightarrow> state" where
  "print txt s = s\<lparr>stdout := stdout s @ txt\<rparr>"

text \<open>
  Reading into a fresh \<^verbatim>\<open>std::string\<close>.  At the end of the input the extraction fails and the
  string stays empty.
\<close>

definition read_str :: "state \<Rightarrow> string \<times> state" where
  "read_str s = (case stdin s of [] \<Rightarrow> ([], s) | x # xs \<Rightarrow> (x, s\<lparr>stdin := xs\<rparr>))"

subsection \<open>Allocation and destruction\<close>

text \<open>
  \<^verbatim>\<open>std::make_unique<Node>(...)\<close>: a new object at an address that holds no live object.
  In a store built by the program every object lies below \<open>brk\<close>, so the new object
  overwrites none.  The allocator of the C++ library may hand out the address of a destroyed
  object again; this one never does, so nothing below is stated about a pointer kept to a
  destroyed node.
\<close>

definition make_unique :: "node \<Rightarrow> state \<Rightarrow> addr \<times> state" where
  "make_unique n s = (brk s, s\<lparr>heap := (heap s)(brk s \<mapsto> n), brk := Suc (brk s)\<rparr>)"

text \<open>
  The destructor of a \<^verbatim>\<open>unique_ptr<Node>\<close>: nothing for null; otherwise the members of the
  node are destroyed in reverse order of declaration (\<open>no\<close> before \<open>yes\<close>) and the node is
  freed.  On a cyclic store the recursion never ends.
\<close>

partial_function (option) destroy :: "addr option \<Rightarrow> (addr \<Rightarrow> node option) \<Rightarrow> (addr \<Rightarrow> node option) result" where
  "destroy p h =
     (case p of None \<Rightarrow> Some (Inr h)
      | Some a \<Rightarrow>
         (case h a of None \<Rightarrow> Some (Inl UseAfterFree)
          | Some n \<Rightarrow>
              andThen (destroy (no n) h) (\<lambda>h1.
              andThen (destroy (yes n) h1) (\<lambda>h2.
              Some (Inr (h2(a := None)))))))"

text \<open>
  Move assignment to a \<^verbatim>\<open>unique_ptr<Node>\<close>: the pointer takes the new value, then the
  node it owned before is destroyed.  \<open>assign_yes p v\<close> is \<^verbatim>\<open>p->yes = std::move(v)\<close>.
\<close>

definition assign_root :: "addr option \<Rightarrow> state \<Rightarrow> state result" where
  "assign_root v s =
     andThen (destroy (root s) (heap s)) (\<lambda>h. Some (Inr (s\<lparr>heap := h, root := v\<rparr>)))"

definition assign_yes :: "addr option \<Rightarrow> addr option \<Rightarrow> state \<Rightarrow> state result" where
  "assign_yes p v s =
     (case p of None \<Rightarrow> Some (Inl NullDereference)
      | Some a \<Rightarrow>
         (case heap s a of None \<Rightarrow> Some (Inl UseAfterFree)
          | Some n \<Rightarrow>
              andThen (destroy (yes n) ((heap s)(a \<mapsto> n\<lparr>yes := v\<rparr>)))
                (\<lambda>h. Some (Inr (s\<lparr>heap := h\<rparr>)))))"

definition assign_no :: "addr option \<Rightarrow> addr option \<Rightarrow> state \<Rightarrow> state result" where
  "assign_no p v s =
     (case p of None \<Rightarrow> Some (Inl NullDereference)
      | Some a \<Rightarrow>
         (case heap s a of None \<Rightarrow> Some (Inl UseAfterFree)
          | Some n \<Rightarrow>
              andThen (destroy (no n) ((heap s)(a \<mapsto> n\<lparr>no := v\<rparr>)))
                (\<lambda>h. Some (Inr (s\<lparr>heap := h\<rparr>)))))"

subsection \<open>The tree\<close>

text \<open>
  \<^verbatim>\<open>resetToInitialState\<close>: three allocations and three move assignments; the first
  assignment destroys the tree owned before.
\<close>

definition resetToInitialState :: "state \<Rightarrow> state result" where
  "resetToInitialState s =
     (let (r, s1) = make_unique (Node_question ''Is your animal warm or cold blooded?'') s in
      andThen (assign_root (Some r) s1) (\<lambda>s2.
      let (d, s3) = make_unique (Node_animal (Some ''Dog'')) s2 in
      andThen (assign_yes (root s3) (Some d) s3) (\<lambda>s4.
      let (k, s5) = make_unique (Node_animal (Some ''Snake'')) s4 in
      assign_no (root s5) (Some k) s5)))"

text \<open>\<^verbatim>\<open>Node* getRoot() const { return root.get(); }\<close>\<close>

definition getRoot :: "state \<Rightarrow> addr option" where
  "getRoot s = root s"

text \<open>The process starts with no objects; the constructor calls \<^verbatim>\<open>resetToInitialState\<close>.\<close>

definition start :: "string list \<Rightarrow> state" where
  "start inp = \<lparr>heap = (\<lambda>a. None), brk = 0, root = None, stdin = inp, stdout = []\<rparr>"

definition AnimalTree :: "string list \<Rightarrow> state result" where
  "AnimalTree inp = resetToInitialState (start inp)"

partial_function (option) collectAnimals ::
    "(addr \<Rightarrow> node option) \<Rightarrow> addr option \<Rightarrow> string list \<Rightarrow> string list result" where
  "collectAnimals h current animals =
     (case current of None \<Rightarrow> Some (Inr animals)
      | Some a \<Rightarrow>
         (case h a of None \<Rightarrow> Some (Inl UseAfterFree)
          | Some n \<Rightarrow>
              if isLeaf n then
                (case animal n of None \<Rightarrow> Some (Inl NullDereference)
                 | Some name \<Rightarrow> Some (Inr (animals @ [name])))
              else
                andThen (collectAnimals h (yes n) animals) (\<lambda>animals1.
                collectAnimals h (no n) animals1)))"

definition listAnimals :: "state \<Rightarrow> state result" where
  "listAnimals s =
     andThen (collectAnimals (heap s) (getRoot s) []) (\<lambda>animals.
     Some (Inr (print (msg_animals animals) s)))"

subsection \<open>The game\<close>

text \<open>
  \<^verbatim>\<open>learnNewAnimal(Node* current)\<close>.  The first use of \<open>current\<close> is
  \<^verbatim>\<open>current->animal->getName()\<close>, which needs a live node with a non-null \<open>animal\<close>.
  The function has no other check and no error path.
\<close>

definition learnNewAnimal :: "addr option \<Rightarrow> state \<Rightarrow> state result" where
  "learnNewAnimal current s =
     (let s1 = print msg_give_up s;
          (newAnimalName, s2) = read_str s1
      in case current of None \<Rightarrow> Some (Inl NullDereference)
         | Some c \<Rightarrow>
            (case heap s2 c of None \<Rightarrow> Some (Inl UseAfterFree)
             | Some n \<Rightarrow>
                (case animal n of None \<Rightarrow> Some (Inl NullDereference)
                 | Some oldName \<Rightarrow>
                    let s3 = print (prompt_distinguish newAnimalName oldName) s2;
                        (newQuestion, s4) = read_str s3;
                        s5 = print (prompt_answer newAnimalName) s4;
                        (answer, s6) = read_str s5;
                        (newAnimalNode, s7) = make_unique (Node_animal (Some newAnimalName)) s6;
                        \<comment> \<open>\<^verbatim>\<open>std::move(current->animal)\<close> leaves \<^verbatim>\<open>current->animal\<close> null\<close>
                        (oldAnimalNode, s8) = make_unique (Node_animal (animal n)) s7;
                        s9 = s8\<lparr>heap := (heap s8)(c \<mapsto> n\<lparr>animal := None\<rparr>)\<rparr>;
                        \<comment> \<open>\<^verbatim>\<open>current->question = newQuestion\<close>\<close>
                        s10 = s9\<lparr>heap := (heap s9)(c \<mapsto> n\<lparr>animal := None, question := newQuestion\<rparr>)\<rparr>
                    in andThen
                         (if answer = ''yes'' then
                            andThen (assign_yes current (Some newAnimalNode) s10)
                              (assign_no current (Some oldAnimalNode))
                          else
                            andThen (assign_yes current (Some oldAnimalNode) s10)
                              (assign_no current (Some newAnimalNode)))
                         (\<lambda>s11. Some (Inr (print msg_got_it s11))))))"

text \<open>
  The \<^verbatim>\<open>while (!current->isLeaf())\<close> loop of \<^verbatim>\<open>askQuestions\<close>.  It returns the leaf it
  stops at.  Once the input is exhausted every extraction fails, \<open>answer\<close> stays empty and
  the loop prints its request for ever: it never returns.
\<close>

function askQuestions_loop :: "addr option \<Rightarrow> state \<Rightarrow> (addr option \<times> state) result" where
  "askQuestions_loop current s =
     (case deref (heap s) current of Inl f \<Rightarrow> Some (Inl f)
      | Inr n \<Rightarrow>
          if isLeaf n then Some (Inr (current, s))
          else
            (let s1 = print (prompt_question (question n)) s in
             case stdin s1 of [] \<Rightarrow> None \<comment> \<open>end of input: the loop spins\<close>
             | answer # rest \<Rightarrow>
                 let s2 = s1\<lparr>stdin := rest\<rparr> in
                 if answer = ''yes'' then askQuestions_loop (yes n) s2
                 else if answer = ''no'' then askQuestions_loop (no n) s2
                 else askQuestions_loop current (print please s2)))"
  by pat_completeness auto
termination
  by (relation "measure (\<lambda>(c, s). length (stdin s))") (auto simp: print_def)

text \<open>
  \<^verbatim>\<open>askQuestions(Node* current)\<close>: the loop, then the guess.  After the guess there is one
  read and no loop: each of the three branches ends the function.
\<close>

definition askQuestions :: "addr option \<Rightarrow> state \<Rightarrow> state result" where
  "askQuestions current0 s0 =
     andThen (askQuestions_loop current0 s0) (\<lambda>(current, s).
       case deref (heap s) current of Inl f \<Rightarrow> Some (Inl f)
       | Inr n \<Rightarrow>
          (case animal n of None \<Rightarrow> Some (Inl NullDereference)
           | Some name \<Rightarrow>
              let s1 = print (prompt_guess name) s;
                  (answer, s2) = read_str s1
              in if answer = ''yes'' then Some (Inr (print msg_yay s2))
                 else if answer = ''no'' then learnNewAnimal current s2
                 else Some (Inr (print please s2))))"

text \<open>The values \<open>current\<close> takes at the successive tests of the loop, for the given answers.\<close>

fun cursors :: "(addr \<Rightarrow> node option) \<Rightarrow> addr option \<Rightarrow> string list \<Rightarrow> addr option list" where
  "cursors h current [] = [current]"
| "cursors h current (answer # rest) =
     (case deref h current of Inl f \<Rightarrow> [current]
      | Inr n \<Rightarrow>
          if isLeaf n then [current]
          else current # cursors h (if answer = ''yes'' then yes n
                                    else if answer = ''no'' then no n else current) rest)"

declare askQuestions_loop.simps [simp del]
declare destroy.simps [code]
declare collectAnimals.simps [code]

subsection \<open>Trees in the store\<close>

text \<open>
  The shape of a tree of \<^verbatim>\<open>Node\<close> objects: every node with its address and its strings.
  \<open>repr h t\<close> says that the store \<open>h\<close> holds the tree \<open>t\<close>, field by field.
\<close>

datatype tree = LeafAt addr string string | QuestionAt addr string tree tree

fun addr_of :: "tree \<Rightarrow> addr" where
  "addr_of (LeafAt a q x) = a"
| "addr_of (QuestionAt a q ty tn) = a"

fun addrs :: "tree \<Rightarrow> addr list" where
  "addrs (LeafAt a q x) = [a]"
| "addrs (QuestionAt a q ty tn) = a # addrs ty @ addrs tn"

fun leaves :: "tree \<Rightarrow> (addr \<times> string) list" where
  "leaves (LeafAt a q x) = [(a, x)]"
| "leaves (QuestionAt a q ty tn) = leaves ty @ leaves tn"

definition labels :: "tree \<Rightarrow> string list" where
  "labels t = map snd (leaves t)"

fun repr :: "(addr \<Rightarrow> node option) \<Rightarrow> tree \<Rightarrow> bool" where
  "repr h (LeafAt a q x) =
     (h a = Some \<lparr>question = q, yes = None, no = None, animal = Some x\<rparr>)"
| "repr h (QuestionAt a q ty tn) =
     (h a = Some \<lparr>question = q, yes = Some (addr_of ty), no = Some (addr_of tn), animal = None\<rparr>
      \<and> repr h ty \<and> repr h tn)"

text \<open>
  \<open>tree_in s t\<close>: the root pointer owns the tree \<open>t\<close>, no node occurs twice in it, and every
  object of the store lies below the allocator's next address.  \<open>owns_all s t\<close> says moreover
  that the store holds no other \<^verbatim>\<open>Node\<close>: the program has one tree.
\<close>

definition tree_in :: "state \<Rightarrow> tree \<Rightarrow> bool" where
  "tree_in s t =
     (root s = Some (addr_of t) \<and> repr (heap s) t \<and> distinct (addrs t)
      \<and> (\<forall>a. brk s \<le> a \<longrightarrow> heap s a = None))"

definition owns_all :: "state \<Rightarrow> tree \<Rightarrow> bool" where
  "owns_all s t = (tree_in s t \<and> dom (heap s) = set (addrs t))"

text \<open>The tree with the leaf at address \<open>c\<close> replaced by \<open>new\<close>.\<close>

fun replace :: "addr \<Rightarrow> tree \<Rightarrow> tree \<Rightarrow> tree" where
  "replace c new (LeafAt a q x) = (if a = c then new else LeafAt a q x)"
| "replace c new (QuestionAt a q ty tn) = QuestionAt a q (replace c new ty) (replace c new tn)"

text \<open>The tree that \<^verbatim>\<open>resetToInitialState\<close> builds when the allocator stands at \<open>b\<close>.\<close>

definition initial_tree :: "addr \<Rightarrow> tree" where
  "initial_tree b =
     QuestionAt b ''Is your animal warm or cold blooded?''
       (LeafAt (b + 1) [] ''Dog'') (LeafAt (b + 2) [] ''Snake'')"

text \<open>
  What \<^verbatim>\<open>read_str\<close> yields for a given input: its first entry, or the empty string at the
  end of the input.
\<close>

definition reply :: "string list \<Rightarrow> string" where
  "reply inp = (case inp of [] \<Rightarrow> [] | x # xs \<Rightarrow> x)"

text \<open>
  The question node \<^verbatim>\<open>learnNewAnimal\<close> makes of the leaf at \<open>c\<close> holding \<open>oldName\<close>, when
  the allocator stands at \<open>b\<close>: the node for the new animal is allocated first.
\<close>

definition learned :: "addr \<Rightarrow> addr \<Rightarrow> string \<Rightarrow> string \<Rightarrow> string \<Rightarrow> string \<Rightarrow> tree" where
  "learned c b newAnimalName newQuestion answer oldName =
     (if answer = ''yes''
      then QuestionAt c newQuestion (LeafAt b [] newAnimalName) (LeafAt (Suc b) [] oldName)
      else QuestionAt c newQuestion (LeafAt (Suc b) [] oldName) (LeafAt b [] newAnimalName))"

text \<open>Following the \<open>yes\<close> (\<open>True\<close>) and \<open>no\<close> (\<open>False\<close>) pointers from a node.\<close>

fun walk :: "(addr \<Rightarrow> node option) \<Rightarrow> addr option \<Rightarrow> bool list \<Rightarrow> addr option" where
  "walk h current [] = current"
| "walk h current (b # bs) =
     (case current of None \<Rightarrow> None
      | Some a \<Rightarrow> (case h a of None \<Rightarrow> None
                  | Some n \<Rightarrow> walk h (if b then yes n else no n) bs))"

definition token :: "bool \<Rightarrow> string" where
  "token b = (if b then ''yes'' else ''no'')"

text \<open>The same walk in a tree.\<close>

fun descend :: "tree \<Rightarrow> bool list \<Rightarrow> tree option" where
  "descend t [] = Some t"
| "descend (LeafAt a q x) (b # bs) = None"
| "descend (QuestionAt a q ty tn) (b # bs) = descend (if b then ty else tn) bs"

text \<open>The addresses met on the way down a tree.\<close>

fun trail :: "tree \<Rightarrow> bool list \<Rightarrow> addr list" where
  "trail t [] = [addr_of t]"
| "trail (LeafAt a q x) (b # bs) = [a]"
| "trail (QuestionAt a q ty tn) (b # bs) = a # trail (if b then ty else tn) bs"

text \<open>
  The traversing state of the specification, as a function of the tree under the cursor and
  the answers still to come.  At a leaf the traversal is over: the result is the leaf, the
  answers left and the text written.  At a question node the question is written and one
  answer is taken: yes moves the cursor to the \<open>yes\<close> child, no to the \<open>no\<close> child; any
  other answer leaves the cursor at the same node and the request to answer yes or no is
  written.  With no answer left at a question node there is no result.
\<close>

fun spec_traversing :: "tree \<Rightarrow> string list \<Rightarrow> (addr \<times> string list \<times> string) option" where
  "spec_traversing (LeafAt a q x) inp = Some (a, inp, [])"
| "spec_traversing (QuestionAt a q ty tn) [] = None"
| "spec_traversing (QuestionAt a q ty tn) (answer # rest) =
     (if answer = ''yes'' then
        map_option (\<lambda>(c, r, out). (c, r, prompt_question q @ out)) (spec_traversing ty rest)
      else if answer = ''no'' then
        map_option (\<lambda>(c, r, out). (c, r, prompt_question q @ out)) (spec_traversing tn rest)
      else
        map_option (\<lambda>(c, r, out). (c, r, prompt_question q @ please @ out))
          (spec_traversing (QuestionAt a q ty tn) rest))"

text \<open>The live \<^verbatim>\<open>Node\<close> objects, and how many of them are leaves and question nodes.\<close>

definition nodes :: "state \<Rightarrow> addr list" where
  "nodes s = filter (\<lambda>a. heap s a \<noteq> None) [0..<brk s]"

definition node_count :: "state \<Rightarrow> nat" where
  "node_count s = length (nodes s)"

definition leaf_count :: "state \<Rightarrow> nat" where
  "leaf_count s = length (filter (\<lambda>a. case heap s a of None \<Rightarrow> False | Some n \<Rightarrow> isLeaf n) (nodes s))"

definition question_count :: "state \<Rightarrow> nat" where
  "question_count s = length (filter (\<lambda>a. case heap s a of None \<Rightarrow> False | Some n \<Rightarrow> \<not> isLeaf n) (nodes s))"

text \<open>
  The states the process passes through.  \<^verbatim>\<open>play\<close> constructs the tree and then alternates
  \<^verbatim>\<open>askQuestions(tree.getRoot())\<close> with the menu of \<^verbatim>\<open>promptAfterRound\<close>, whose choices
  are: nothing, \<^verbatim>\<open>resetToInitialState\<close>, \<^verbatim>\<open>listAnimals\<close>.  What the user will type is not
  fixed in advance, and the menu reads from the same input.
\<close>

inductive reachable :: "state \<Rightarrow> bool" where
  construct: "AnimalTree inp = Some (Inr s) \<Longrightarrow> reachable s"
| round: "reachable s \<Longrightarrow> askQuestions (getRoot s) s = Some (Inr s') \<Longrightarrow> reachable s'"
| reset: "reachable s \<Longrightarrow> resetToInitialState s = Some (Inr s') \<Longrightarrow> reachable s'"
| list: "reachable s \<Longrightarrow> listAnimals s = Some (Inr s') \<Longrightarrow> reachable s'"
| input: "reachable s \<Longrightarrow> reachable (s\<lparr>stdin := inp\<rparr>)"

text \<open>The state right after construction, written out.\<close>

definition fresh_game :: "string list \<Rightarrow> state" where
  "fresh_game inp =
     \<lparr>heap = (\<lambda>a. None)
        (0 \<mapsto> \<lparr>question = ''Is your animal warm or cold blooded?'',
                yes = Some 1, no = Some 2, animal = None\<rparr>,
         1 \<mapsto> \<lparr>question = [], yes = None, no = None, animal = Some ''Dog''\<rparr>,
         2 \<mapsto> \<lparr>question = [], yes = None, no = None, animal = Some ''Snake''\<rparr>),
      brk = 3, root = Some 0, stdin = inp, stdout = []\<rparr>"

text \<open>
  The state after one round from the fresh state in which the user answers yes, rejects the
  guess Dog, and teaches Cat with the question "Does it bark?", for which the answer is no.
\<close>

definition cat_tree :: tree where
  "cat_tree =
     QuestionAt 0 ''Is your animal warm or cold blooded?''
       (QuestionAt 1 ''Does it bark?'' (LeafAt 4 [] ''Dog'') (LeafAt 3 [] ''Cat''))
       (LeafAt 2 [] ''Snake'')"

definition cat_game :: "string list \<Rightarrow> state" where
  "cat_game inp =
     \<lparr>heap = (\<lambda>a. None)
        (0 \<mapsto> \<lparr>question = ''Is your animal warm or cold blooded?'',
                yes = Some 1, no = Some 2, animal = None\<rparr>,
         1 \<mapsto> \<lparr>question = ''Does it bark?'', yes = Some 4, no = Some 3, animal = None\<rparr>,
         2 \<mapsto> \<lparr>question = [], yes = None, no = None, animal = Some ''Snake''\<rparr>,
         3 \<mapsto> \<lparr>question = [], yes = None, no = None, animal = Some ''Cat''\<rparr>,
         4 \<mapsto> \<lparr>question = [], yes = None, no = None, animal = Some ''Dog''\<rparr>),
      brk = 5, root = Some 0, stdin = inp,
      stdout = prompt_question ''Is your animal warm or cold blooded?'' @ prompt_guess ''Dog''
               @ msg_give_up @ prompt_distinguish ''Cat'' ''Dog'' @ prompt_answer ''Cat''
               @ msg_got_it\<rparr>"

text \<open>
  A store with the nodes of two \<^verbatim>\<open>AnimalTree\<close> objects, each in the default shape: the
  tree of the game at the addresses 0, 1, 2 and another tree at 3, 4, 5.
\<close>

definition two_trees :: "string list \<Rightarrow> state" where
  "two_trees inp =
     \<lparr>heap = (\<lambda>a. None)
        (0 \<mapsto> \<lparr>question = ''Is your animal warm or cold blooded?'',
                yes = Some 1, no = Some 2, animal = None\<rparr>,
         1 \<mapsto> \<lparr>question = [], yes = None, no = None, animal = Some ''Dog''\<rparr>,
         2 \<mapsto> \<lparr>question = [], yes = None, no = None, animal = Some ''Snake''\<rparr>,
         3 \<mapsto> \<lparr>question = ''Is your animal warm or cold blooded?'',
                yes = Some 4, no = Some 5, animal = None\<rparr>,
         4 \<mapsto> \<lparr>question = [], yes = None, no = None, animal = Some ''Dog''\<rparr>,
         5 \<mapsto> \<lparr>question = [], yes = None, no = None, animal = Some ''Snake''\<rparr>),
      brk = 6, root = Some 0, stdin = inp, stdout = []\<rparr>"

text \<open>
  The default shape: the root is a question node with the fixed text, its \<open>yes\<close> child
  is a leaf holding Dog, its \<open>no\<close> child a leaf holding Snake, and \<^verbatim>\<open>collectAnimals\<close>
  from the root yields Dog, Snake.
\<close>

definition default_shape :: "state \<Rightarrow> bool" where
  "default_shape s =
     (case deref (heap s) (getRoot s) of Inl f \<Rightarrow> False
      | Inr r \<Rightarrow>
          \<not> isLeaf r \<and> question r = ''Is your animal warm or cold blooded?''
          \<and> (case deref (heap s) (yes r) of Inl f \<Rightarrow> False
               | Inr y \<Rightarrow> isLeaf y \<and> animal y = Some ''Dog'')
          \<and> (case deref (heap s) (no r) of Inl f \<Rightarrow> False
               | Inr n \<Rightarrow> isLeaf n \<and> animal n = Some ''Snake'')
          \<and> collectAnimals (heap s) (getRoot s) [] = Some (Inr [''Dog'', ''Snake'']))"

subsection \<open>Lemmas about the store\<close>

lemma andThen_Inr [simp]: "andThen (Some (Inr x)) f = f x"
  by (simp add: andThen_def)

lemma andThen_Inl [simp]: "andThen (Some (Inl e)) f = Some (Inl e)"
  by (simp add: andThen_def)

lemma andThen_None [simp]: "andThen None f = None"
  by (simp add: andThen_def)

lemma destroy_None [simp]: "destroy None h = Some (Inr h)"
  by (subst destroy.simps) simp

lemma addr_of_in_addrs [simp]: "addr_of t \<in> set (addrs t)"
  by (cases t) simp_all

lemma repr_frame: "(\<And>a. a \<in> set (addrs t) \<Longrightarrow> h' a = h a) \<Longrightarrow> repr h' t = repr h t"
  by (induction t) auto

lemma collectAnimals_repr:
  "repr h t \<Longrightarrow> collectAnimals h (Some (addr_of t)) acc = Some (Inr (acc @ labels t))"
proof (induction t arbitrary: acc)
  case (LeafAt a q x)
  then show ?case
    by (subst collectAnimals.simps) (simp add: isLeaf_def labels_def)
next
  case (QuestionAt a q ty tn)
  then show ?case
    by (subst collectAnimals.simps) (simp add: isLeaf_def labels_def)
qed

lemma destroy_repr:
  "repr h t \<Longrightarrow> distinct (addrs t) \<Longrightarrow>
   destroy (Some (addr_of t)) h = Some (Inr (\<lambda>a. if a \<in> set (addrs t) then None else h a))"
proof (induction t arbitrary: h)
  case (LeafAt a q x)
  then show ?case
    by (subst destroy.simps) (auto simp: fun_eq_iff)
next
  case (QuestionAt a q ty tn)
  let ?h1 = "\<lambda>b. if b \<in> set (addrs tn) then None else h b"
  from QuestionAt.prems have n: "destroy (Some (addr_of tn)) h = Some (Inr ?h1)"
    by (intro QuestionAt.IH) auto
  have "repr ?h1 ty = repr h ty"
    using QuestionAt.prems by (intro repr_frame) auto
  with QuestionAt.prems have y: "destroy (Some (addr_of ty)) ?h1
      = Some (Inr (\<lambda>b. if b \<in> set (addrs ty) then None else ?h1 b))"
    by (intro QuestionAt.IH) auto
  from QuestionAt.prems show ?case
    by (subst destroy.simps) (auto simp: n y fun_eq_iff)
qed

lemma leaves_in_addrs: "(c, x) \<in> set (leaves t) \<Longrightarrow> c \<in> set (addrs t)"
  by (induction t) auto

lemma repr_leaf:
  "repr h t \<Longrightarrow> (c, x) \<in> set (leaves t) \<Longrightarrow>
   \<exists>q. h c = Some \<lparr>question = q, yes = None, no = None, animal = Some x\<rparr>"
  by (induction t) auto

lemma replace_absent: "c \<notin> set (addrs t) \<Longrightarrow> replace c new t = t"
  by (induction t) auto

lemma addr_of_replace:
  "addr_of new = c \<Longrightarrow> addr_of (replace c new t) = addr_of t"
  by (cases t) auto

lemma addrs_replace:
  "(c, x) \<in> set (leaves t) \<Longrightarrow> distinct (addrs t) \<Longrightarrow>
   set (addrs (replace c new t)) = set (addrs t) - {c} \<union> set (addrs new)"
proof (induction t)
  case (LeafAt a q y)
  then show ?case by auto
next
  case (QuestionAt a q ty tn)
  from QuestionAt.prems have dis: "set (addrs ty) \<inter> set (addrs tn) = {}"
    and a: "a \<notin> set (addrs ty)" "a \<notin> set (addrs tn)" by auto
  from QuestionAt.prems consider "(c, x) \<in> set (leaves ty)" | "(c, x) \<in> set (leaves tn)"
    by auto
  then show ?case
  proof cases
    case 1
    then have cy: "c \<in> set (addrs ty)" by (rule leaves_in_addrs)
    with dis have "c \<notin> set (addrs tn)" by auto
    then have "replace c new tn = tn" by (rule replace_absent)
    moreover have "set (addrs (replace c new ty)) = set (addrs ty) - {c} \<union> set (addrs new)"
      using 1 QuestionAt.prems by (intro QuestionAt.IH) auto
    ultimately show ?thesis using cy dis a by auto
  next
    case 2
    then have cn: "c \<in> set (addrs tn)" by (rule leaves_in_addrs)
    with dis have "c \<notin> set (addrs ty)" by auto
    then have "replace c new ty = ty" by (rule replace_absent)
    moreover have "set (addrs (replace c new tn)) = set (addrs tn) - {c} \<union> set (addrs new)"
      using 2 QuestionAt.prems by (intro QuestionAt.IH) auto
    ultimately show ?thesis using cn dis a by auto
  qed
qed

lemma distinct_replace:
  "(c, x) \<in> set (leaves t) \<Longrightarrow> distinct (addrs t) \<Longrightarrow> distinct (addrs new) \<Longrightarrow>
   set (addrs new) \<inter> set (addrs t) \<subseteq> {c} \<Longrightarrow> distinct (addrs (replace c new t))"
proof (induction t)
  case (LeafAt a q y)
  then show ?case by auto
next
  case (QuestionAt a q ty tn)
  from QuestionAt.prems have dis: "set (addrs ty) \<inter> set (addrs tn) = {}"
    and a: "a \<notin> set (addrs ty)" "a \<notin> set (addrs tn)" by auto
  from QuestionAt.prems consider "(c, x) \<in> set (leaves ty)" | "(c, x) \<in> set (leaves tn)"
    by auto
  then show ?case
  proof cases
    case 1
    then have cy: "c \<in> set (addrs ty)" by (rule leaves_in_addrs)
    with dis have "c \<notin> set (addrs tn)" by auto
    then have tn: "replace c new tn = tn" by (rule replace_absent)
    have d: "distinct (addrs (replace c new ty))"
      using 1 QuestionAt.prems by (intro QuestionAt.IH) auto
    have "set (addrs (replace c new ty)) = set (addrs ty) - {c} \<union> set (addrs new)"
      using 1 QuestionAt.prems by (intro addrs_replace) auto
    with d tn show ?thesis using cy dis a QuestionAt.prems by auto
  next
    case 2
    then have cn: "c \<in> set (addrs tn)" by (rule leaves_in_addrs)
    with dis have "c \<notin> set (addrs ty)" by auto
    then have ty: "replace c new ty = ty" by (rule replace_absent)
    have d: "distinct (addrs (replace c new tn))"
      using 2 QuestionAt.prems by (intro QuestionAt.IH) auto
    have "set (addrs (replace c new tn)) = set (addrs tn) - {c} \<union> set (addrs new)"
      using 2 QuestionAt.prems by (intro addrs_replace) auto
    with d ty show ?thesis using cn dis a QuestionAt.prems by auto
  qed
qed

lemma repr_replace:
  "repr h t \<Longrightarrow> distinct (addrs t) \<Longrightarrow> (c, x) \<in> set (leaves t) \<Longrightarrow>
   (\<And>a. a \<in> set (addrs t) \<Longrightarrow> a \<noteq> c \<Longrightarrow> h' a = h a) \<Longrightarrow>
   repr h' new \<Longrightarrow> addr_of new = c \<Longrightarrow> repr h' (replace c new t)"
proof (induction t)
  case (LeafAt a q y)
  then show ?case by auto
next
  case (QuestionAt a q ty tn)
  from QuestionAt.prems have dis: "set (addrs ty) \<inter> set (addrs tn) = {}"
    and a: "a \<notin> set (addrs ty)" "a \<notin> set (addrs tn)" by auto
  from QuestionAt.prems(3) consider "(c, x) \<in> set (leaves ty)" | "(c, x) \<in> set (leaves tn)"
    by auto
  then have "repr h' (replace c new ty) \<and> repr h' (replace c new tn)"
  proof cases
    case 1
    then have cy: "c \<in> set (addrs ty)" by (rule leaves_in_addrs)
    with dis have cn: "c \<notin> set (addrs tn)" by auto
    then have tn: "replace c new tn = tn" by (rule replace_absent)
    have "repr h' tn = repr h tn"
      using cn QuestionAt.prems(4) by (intro repr_frame) auto
    moreover have "repr h' (replace c new ty)"
      using 1 QuestionAt.prems by (intro QuestionAt.IH) auto
    ultimately show ?thesis using tn QuestionAt.prems(1) by simp
  next
    case 2
    then have cn: "c \<in> set (addrs tn)" by (rule leaves_in_addrs)
    with dis have cy: "c \<notin> set (addrs ty)" by auto
    then have ty: "replace c new ty = ty" by (rule replace_absent)
    have "repr h' ty = repr h ty"
      using cy QuestionAt.prems(4) by (intro repr_frame) auto
    moreover have "repr h' (replace c new tn)"
      using 2 QuestionAt.prems by (intro QuestionAt.IH) auto
    ultimately show ?thesis using ty QuestionAt.prems(1) by simp
  qed
  moreover have "c \<noteq> a"
    using QuestionAt.prems(3) a by (auto dest: leaves_in_addrs)
  then have "h' a = h a" using QuestionAt.prems(4) by simp
  ultimately show ?case
    using QuestionAt.prems(1,6) by (simp add: addr_of_replace)
qed

lemma leaves_replace:
  "(c, x) \<in> set (leaves t) \<Longrightarrow> distinct (addrs t) \<Longrightarrow>
   \<exists>pre post. leaves t = pre @ (c, x) # post \<and> leaves (replace c new t) = pre @ leaves new @ post"
proof (induction t)
  case (LeafAt a q y)
  then have "[(a, y)] = [] @ (c, x) # [] \<and> leaves (replace c new (LeafAt a q y)) = [] @ leaves new @ []"
    by simp
  then show ?case unfolding leaves.simps by blast
next
  case (QuestionAt a q ty tn)
  from QuestionAt.prems have dis: "set (addrs ty) \<inter> set (addrs tn) = {}" by auto
  from QuestionAt.prems consider "(c, x) \<in> set (leaves ty)" | "(c, x) \<in> set (leaves tn)"
    by auto
  then show ?case
  proof cases
    case 1
    then have "c \<in> set (addrs ty)" by (rule leaves_in_addrs)
    with dis have "c \<notin> set (addrs tn)" by auto
    then have tn: "replace c new tn = tn" by (rule replace_absent)
    from 1 QuestionAt.prems obtain pre post where
      "leaves ty = pre @ (c, x) # post" "leaves (replace c new ty) = pre @ leaves new @ post"
      using QuestionAt.IH(1) by auto
    then have "leaves (QuestionAt a q ty tn) = pre @ (c, x) # (post @ leaves tn)
      \<and> leaves (replace c new (QuestionAt a q ty tn)) = pre @ leaves new @ (post @ leaves tn)"
      using tn by simp
    then show ?thesis by blast
  next
    case 2
    then have "c \<in> set (addrs tn)" by (rule leaves_in_addrs)
    with dis have "c \<notin> set (addrs ty)" by auto
    then have ty: "replace c new ty = ty" by (rule replace_absent)
    from 2 QuestionAt.prems obtain pre post where
      "leaves tn = pre @ (c, x) # post" "leaves (replace c new tn) = pre @ leaves new @ post"
      using QuestionAt.IH(2) by auto
    then have "leaves (QuestionAt a q ty tn) = (leaves ty @ pre) @ (c, x) # post
      \<and> leaves (replace c new (QuestionAt a q ty tn)) = (leaves ty @ pre) @ leaves new @ post"
      using ty by simp
    then show ?thesis by blast
  qed
qed

lemma read_str_eq: "read_str s = (reply (stdin s), s\<lparr>stdin := tl (stdin s)\<rparr>)"
  by (cases "stdin s") (simp_all add: read_str_def reply_def)

lemma tree_in_below: "tree_in s t \<Longrightarrow> a \<in> set (addrs t) \<Longrightarrow> a < brk s"
proof (rule ccontr)
  assume t: "tree_in s t" and a: "a \<in> set (addrs t)" and "\<not> a < brk s"
  then have "heap s a = None" by (simp add: tree_in_def)
  moreover have "repr (heap s) t" using t by (simp add: tree_in_def)
  then have "heap s a \<noteq> None" using a by (induction t) auto
  ultimately show False by simp
qed

lemma print_fields [simp]:
  "heap (print txt s) = heap s" "brk (print txt s) = brk s" "root (print txt s) = root s"
  "stdin (print txt s) = stdin s"
  by (simp_all add: print_def)

lemma learnNewAnimal_state:
  assumes hc: "heap s c = Some \<lparr>question = q0, yes = None, no = None, animal = Some X\<rparr>"
    and ne: "c \<noteq> brk s" "c \<noteq> Suc (brk s)"
  shows "learnNewAnimal (Some c) s = Some (Inr (s\<lparr>
      heap := (heap s)
          (brk s \<mapsto> Node_animal (Some (reply (stdin s))),
           Suc (brk s) \<mapsto> Node_animal (Some X),
           c \<mapsto> (if reply (tl (tl (stdin s))) = ''yes''
                 then \<lparr>question = reply (tl (stdin s)), yes = Some (brk s), no = Some (Suc (brk s)), animal = None\<rparr>
                 else \<lparr>question = reply (tl (stdin s)), yes = Some (Suc (brk s)), no = Some (brk s), animal = None\<rparr>)),
      brk := Suc (Suc (brk s)),
      stdin := tl (tl (tl (stdin s))),
      stdout := stdout s @ msg_give_up @ prompt_distinguish (reply (stdin s)) X
        @ prompt_answer (reply (stdin s)) @ msg_got_it\<rparr>))"
proof -
  have ne': "brk s \<noteq> c" "Suc (brk s) \<noteq> c" using ne by auto
  show ?thesis
    using hc ne ne'
    by (simp add: learnNewAnimal_def read_str_eq make_unique_def assign_yes_def
        assign_no_def Let_def print_def)
qed

lemma learnNewAnimal_heap:
  assumes t: "tree_in s t" and c: "(c, X) \<in> set (leaves t)"
  shows "\<exists>s' q0. learnNewAnimal (Some c) s = Some (Inr s')
     \<and> heap s c = Some \<lparr>question = q0, yes = None, no = None, animal = Some X\<rparr>
     \<and> heap s' = (heap s)
          (brk s \<mapsto> Node_animal (Some (reply (stdin s))),
           Suc (brk s) \<mapsto> Node_animal (Some X),
           c \<mapsto> (if reply (tl (tl (stdin s))) = ''yes''
                 then \<lparr>question = reply (tl (stdin s)), yes = Some (brk s), no = Some (Suc (brk s)), animal = None\<rparr>
                 else \<lparr>question = reply (tl (stdin s)), yes = Some (Suc (brk s)), no = Some (brk s), animal = None\<rparr>))
     \<and> brk s' = Suc (Suc (brk s)) \<and> root s' = root s \<and> stdin s' = tl (tl (tl (stdin s)))"
proof -
  from t have r: "repr (heap s) t" by (simp add: tree_in_def)
  from repr_leaf [OF r c] obtain q0 where
    hc: "heap s c = Some \<lparr>question = q0, yes = None, no = None, animal = Some X\<rparr>" by blast
  from c have "c \<in> set (addrs t)" by (rule leaves_in_addrs)
  with t have "c < brk s" by (rule tree_in_below)
  then have ne: "c \<noteq> brk s" "c \<noteq> Suc (brk s)" by auto
  show ?thesis
    using hc by (simp add: learnNewAnimal_state [OF hc ne])
qed

lemma learnNewAnimal_tree:
  assumes t: "tree_in s t" and c: "(c, X) \<in> set (leaves t)"
  shows "\<exists>s'. learnNewAnimal (Some c) s = Some (Inr s')
     \<and> tree_in s' (replace c (learned c (brk s) (reply (stdin s)) (reply (tl (stdin s)))
                                   (reply (tl (tl (stdin s)))) X) t)
     \<and> dom (heap s') = dom (heap s) \<union> {brk s, Suc (brk s)}
     \<and> stdin s' = tl (tl (tl (stdin s)))"
proof -
  let ?new = "learned c (brk s) (reply (stdin s)) (reply (tl (stdin s))) (reply (tl (tl (stdin s)))) X"
  from learnNewAnimal_heap [OF t c] obtain s' q0 where
    run: "learnNewAnimal (Some c) s = Some (Inr s')"
    and hc: "heap s c = Some \<lparr>question = q0, yes = None, no = None, animal = Some X\<rparr>"
    and h': "heap s' = (heap s)
          (brk s \<mapsto> Node_animal (Some (reply (stdin s))),
           Suc (brk s) \<mapsto> Node_animal (Some X),
           c \<mapsto> (if reply (tl (tl (stdin s))) = ''yes''
                 then \<lparr>question = reply (tl (stdin s)), yes = Some (brk s), no = Some (Suc (brk s)), animal = None\<rparr>
                 else \<lparr>question = reply (tl (stdin s)), yes = Some (Suc (brk s)), no = Some (brk s), animal = None\<rparr>))"
    and b': "brk s' = Suc (Suc (brk s))" and r': "root s' = root s"
    and i': "stdin s' = tl (tl (tl (stdin s)))" by blast
  from c have ct: "c \<in> set (addrs t)" by (rule leaves_in_addrs)
  have below: "a < brk s" if "a \<in> set (addrs t)" for a
    using t that by (rule tree_in_below)
  from below [OF ct] have ne: "c \<noteq> brk s" "c \<noteq> Suc (brk s)" by auto
  from t have r: "repr (heap s) t" and d: "distinct (addrs t)"
    and top: "\<And>a. brk s \<le> a \<Longrightarrow> heap s a = None"
    and rt: "root s = Some (addr_of t)" by (simp_all add: tree_in_def)
  have new_addr: "addr_of ?new = c" by (simp add: learned_def)
  have new_repr: "repr (heap s') ?new"
    using ne by (simp add: h' learned_def Node_animal_def)
  have same: "heap s' a = heap s a" if "a \<in> set (addrs t)" "a \<noteq> c" for a
    using below [OF that(1)] that(2) by (simp add: h')
  have "repr (heap s') (replace c ?new t)"
    using r d c same new_repr new_addr by (rule repr_replace)
  moreover have "distinct (addrs (replace c ?new t))"
  proof (rule distinct_replace [OF c d])
    show "distinct (addrs ?new)" using ne by (auto simp: learned_def)
    have "brk s \<notin> set (addrs t)" "Suc (brk s) \<notin> set (addrs t)"
      using below [of "brk s"] below [of "Suc (brk s)"] by auto
    then show "set (addrs ?new) \<inter> set (addrs t) \<subseteq> {c}"
      by (auto simp: learned_def)
  qed
  moreover have "root s' = Some (addr_of (replace c ?new t))"
    using rt r' new_addr by (simp add: addr_of_replace)
  moreover have "heap s' a = None" if "brk s' \<le> a" for a
    using that below [OF ct] top [of a] by (simp add: h' b')
  ultimately have "tree_in s' (replace c ?new t)" by (simp add: tree_in_def)
  moreover have "dom (heap s') = dom (heap s) \<union> {brk s, Suc (brk s)}"
    using hc by (auto simp: h' split: if_splits)
  ultimately show ?thesis using run i' by blast
qed

lemma resetToInitialState_run:
  assumes d: "destroy (root s) ((heap s)(brk s \<mapsto> Node_question ''Is your animal warm or cold blooded?''))
                = Some (Inr h)"
    and keep: "h (brk s) = Some (Node_question ''Is your animal warm or cold blooded?'')"
  shows "resetToInitialState s = Some (Inr (s\<lparr>
      heap := h(brk s \<mapsto> \<lparr>question = ''Is your animal warm or cold blooded?'',
                            yes = Some (brk s + 1), no = Some (brk s + 2), animal = None\<rparr>,
                brk s + 1 \<mapsto> Node_animal (Some ''Dog''),
                brk s + 2 \<mapsto> Node_animal (Some ''Snake'')),
      brk := brk s + 3, root := Some (brk s)\<rparr>))"
  using d keep
  by (simp add: resetToInitialState_def make_unique_def assign_root_def assign_yes_def
      assign_no_def Node_question_def fun_upd_twist)

lemma resetToInitialState_tree:
  assumes t: "tree_in s t"
  shows "\<exists>s'. resetToInitialState s = Some (Inr s') \<and> tree_in s' (initial_tree (brk s))
     \<and> dom (heap s') = dom (heap s) - set (addrs t) \<union> {brk s, brk s + 1, brk s + 2}
     \<and> stdin s' = stdin s \<and> stdout s' = stdout s"
proof -
  let ?q = "Node_question ''Is your animal warm or cold blooded?''"
  let ?h1 = "(heap s)(brk s \<mapsto> ?q)"
  let ?h = "\<lambda>a. if a \<in> set (addrs t) then None else ?h1 a"
  from t have r: "repr (heap s) t" and dt: "distinct (addrs t)"
    and top: "\<And>a. brk s \<le> a \<Longrightarrow> heap s a = None"
    and rt: "root s = Some (addr_of t)" by (simp_all add: tree_in_def)
  have below: "a < brk s" if "a \<in> set (addrs t)" for a
    using t that by (rule tree_in_below)
  have "repr ?h1 t = repr (heap s) t"
    using below by (intro repr_frame) auto
  with r have "repr ?h1 t" by simp
  then have "destroy (Some (addr_of t)) ?h1 = Some (Inr ?h)"
    using dt by (rule destroy_repr)
  then have d: "destroy (root s) ?h1 = Some (Inr ?h)" by (simp add: rt)
  have keep: "?h (brk s) = Some ?q" using below [of "brk s"] by auto
  note run = resetToInitialState_run [OF d keep]
  let ?s' = "s\<lparr>heap := ?h(brk s \<mapsto> \<lparr>question = ''Is your animal warm or cold blooded?'',
                            yes = Some (brk s + 1), no = Some (brk s + 2), animal = None\<rparr>,
                brk s + 1 \<mapsto> Node_animal (Some ''Dog''),
                brk s + 2 \<mapsto> Node_animal (Some ''Snake'')),
      brk := brk s + 3, root := Some (brk s)\<rparr>"
  have "tree_in ?s' (initial_tree (brk s))"
    using top below by (auto simp: tree_in_def initial_tree_def Node_animal_def)
  moreover have "dom (heap ?s') = dom (heap s) - set (addrs t) \<union> {brk s, brk s + 1, brk s + 2}"
    by (auto split: if_splits)
  ultimately show ?thesis using run by simp
qed

lemma AnimalTree_tree:
  "\<exists>s. AnimalTree inp = Some (Inr s) \<and> tree_in s (initial_tree 0)
     \<and> dom (heap s) = {0, 1, 2} \<and> stdin s = inp \<and> stdout s = []"
proof -
  have d: "destroy (root (start inp)) ((heap (start inp))(brk (start inp) \<mapsto>
      Node_question ''Is your animal warm or cold blooded?'')) =
      Some (Inr ((heap (start inp))(brk (start inp) \<mapsto>
      Node_question ''Is your animal warm or cold blooded?'')))"
    by (simp add: start_def)
  note run = resetToInitialState_run [OF d]
  show ?thesis
    unfolding AnimalTree_def
    by (subst run) (auto simp: start_def tree_in_def initial_tree_def Node_animal_def split: if_splits)
qed

lemma askQuestions_loop_at_leaf:
  "heap s c = Some n \<Longrightarrow> isLeaf n \<Longrightarrow> askQuestions_loop (Some c) s = Some (Inr (Some c, s))"
  by (rule trans [OF askQuestions_loop.simps]) (simp add: deref_def)

lemma askQuestions_loop_eof:
  "heap s c = Some n \<Longrightarrow> \<not> isLeaf n \<Longrightarrow> stdin s = [] \<Longrightarrow> askQuestions_loop (Some c) s = None"
  by (rule trans [OF askQuestions_loop.simps]) (simp add: deref_def)

lemma askQuestions_loop_answer:
  "heap s c = Some n \<Longrightarrow> \<not> isLeaf n \<Longrightarrow> stdin s = answer # rest \<Longrightarrow>
   askQuestions_loop (Some c) s =
     (if answer = ''yes'' then askQuestions_loop (yes n) ((print (prompt_question (question n)) s)\<lparr>stdin := rest\<rparr>)
      else if answer = ''no'' then askQuestions_loop (no n) ((print (prompt_question (question n)) s)\<lparr>stdin := rest\<rparr>)
      else askQuestions_loop (Some c) (print please ((print (prompt_question (question n)) s)\<lparr>stdin := rest\<rparr>)))"
  by (rule trans [OF askQuestions_loop.simps]) (simp add: deref_def)

lemma askQuestions_loop_repr:
  "repr (heap s) t \<Longrightarrow>
   askQuestions_loop (Some (addr_of t)) s = None \<or>
   (\<exists>c X s'. askQuestions_loop (Some (addr_of t)) s = Some (Inr (Some c, s'))
      \<and> (c, X) \<in> set (leaves t) \<and> heap s' = heap s \<and> brk s' = brk s \<and> root s' = root s)"
proof (induction "stdin s" arbitrary: s t)
  case Nil
  show ?case
  proof (cases t)
    case (LeafAt a q x)
    with Nil.prems show ?thesis
      by (simp add: askQuestions_loop_at_leaf isLeaf_def)
  next
    case (QuestionAt a q ty tn)
    with Nil.prems Nil.hyps [symmetric] show ?thesis
      by (simp add: askQuestions_loop_eof isLeaf_def)
  qed
next
  case (Cons answer rest)
  show ?case
  proof (cases t)
    case (LeafAt a q x)
    with Cons.prems show ?thesis
      by (simp add: askQuestions_loop_at_leaf isLeaf_def)
  next
    case (QuestionAt a q ty tn)
    let ?n = "\<lparr>question = q, yes = Some (addr_of ty), no = Some (addr_of tn), animal = None\<rparr>"
    let ?s2 = "(print (prompt_question (question ?n)) s)\<lparr>stdin := rest\<rparr>"
    from QuestionAt Cons.prems have h: "heap s a = Some ?n" and ry: "repr (heap s) ty"
      and rn: "repr (heap s) tn" by simp_all
    have nl: "\<not> isLeaf ?n" by (simp add: isLeaf_def)
    note step = askQuestions_loop_answer [OF h nl Cons.hyps(2) [symmetric]]
    have y: "askQuestions_loop (Some (addr_of ty)) ?s2 = None \<or>
       (\<exists>c X s'. askQuestions_loop (Some (addr_of ty)) ?s2 = Some (Inr (Some c, s'))
          \<and> (c, X) \<in> set (leaves ty) \<and> heap s' = heap ?s2 \<and> brk s' = brk ?s2 \<and> root s' = root ?s2)"
      using ry by (intro Cons.hyps(1)) simp_all
    have n: "askQuestions_loop (Some (addr_of tn)) ?s2 = None \<or>
       (\<exists>c X s'. askQuestions_loop (Some (addr_of tn)) ?s2 = Some (Inr (Some c, s'))
          \<and> (c, X) \<in> set (leaves tn) \<and> heap s' = heap ?s2 \<and> brk s' = brk ?s2 \<and> root s' = root ?s2)"
      using rn by (intro Cons.hyps(1)) simp_all
    have o: "askQuestions_loop (Some (addr_of t)) (print please ?s2) = None \<or>
       (\<exists>c X s'. askQuestions_loop (Some (addr_of t)) (print please ?s2) = Some (Inr (Some c, s'))
          \<and> (c, X) \<in> set (leaves t) \<and> heap s' = heap (print please ?s2)
          \<and> brk s' = brk (print please ?s2) \<and> root s' = root (print please ?s2))"
      using Cons.prems by (intro Cons.hyps(1)) simp_all
    show ?thesis
      using y n o unfolding QuestionAt addr_of.simps step
      by (auto simp: print_def)
  qed
qed

lemma askQuestions_after_loop:
  assumes "askQuestions_loop current0 s0 = Some (Inr (Some c, s))"
    and "heap s c = Some n" and "animal n = Some X"
  shows "askQuestions current0 s0 =
     (if reply (stdin s) = ''yes''
      then Some (Inr (print msg_yay
                        ((print (prompt_guess X) s)\<lparr>stdin := tl (stdin s)\<rparr>)))
      else if reply (stdin s) = ''no''
      then learnNewAnimal (Some c) ((print (prompt_guess X) s)\<lparr>stdin := tl (stdin s)\<rparr>)
      else Some (Inr (print please
                        ((print (prompt_guess X) s)\<lparr>stdin := tl (stdin s)\<rparr>))))"
  using assms by (simp add: askQuestions_def deref_def read_str_eq)

lemma tree_in_io:
  "tree_in (s\<lparr>stdin := i\<rparr>) t = tree_in s t" "tree_in (s\<lparr>stdout := out\<rparr>) t = tree_in s t"
  "tree_in (print txt s) t = tree_in s t"
  by (simp_all add: tree_in_def)

lemma addrs_learned:
  "set (addrs (learned c b x q ans y)) = {c, b, Suc b}"
  by (auto simp: learned_def)

lemma askQuestions_tree:
  assumes t: "tree_in s t"
  shows "askQuestions (Some (addr_of t)) s = None \<or>
    (\<exists>s'. askQuestions (Some (addr_of t)) s = Some (Inr s') \<and> tree_in s' t
        \<and> heap s' = heap s \<and> brk s' = brk s) \<or>
    (\<exists>s' c X x q ans. askQuestions (Some (addr_of t)) s = Some (Inr s')
        \<and> (c, X) \<in> set (leaves t)
        \<and> tree_in s' (replace c (learned c (brk s) x q ans X) t)
        \<and> dom (heap s') = dom (heap s) \<union> {brk s, Suc (brk s)})"
proof -
  from t have r: "repr (heap s) t" by (simp add: tree_in_def)
  from askQuestions_loop_repr [OF r] consider
    "askQuestions_loop (Some (addr_of t)) s = None"
    | c X s1 where "askQuestions_loop (Some (addr_of t)) s = Some (Inr (Some c, s1))"
      "(c, X) \<in> set (leaves t)" "heap s1 = heap s" "brk s1 = brk s" "root s1 = root s"
    by fast
  then show ?thesis
  proof cases
    case 1
    then show ?thesis by (simp add: askQuestions_def)
  next
    case 2
    have t1: "tree_in s1 t" using t 2(3-5) by (simp add: tree_in_def)
    from repr_leaf [OF r 2(2)] 2(3) obtain q0 where
      hc: "heap s1 c = Some \<lparr>question = q0, yes = None, no = None, animal = Some X\<rparr>" by auto
    let ?s2 = "(print (prompt_guess X) s1)\<lparr>stdin := tl (stdin s1)\<rparr>"
    note eq = askQuestions_after_loop [OF 2(1) hc, of X, simplified]
    have t2: "tree_in ?s2 t" using t1 by (simp add: tree_in_io)
    have f2: "heap ?s2 = heap s" "brk ?s2 = brk s" using 2(3,4) by simp_all
    consider "reply (stdin s1) = ''yes''" | "reply (stdin s1) = ''no''"
      | "reply (stdin s1) \<noteq> ''yes''" "reply (stdin s1) \<noteq> ''no''" by blast
    then show ?thesis
    proof cases
      case 1
      then show ?thesis using t2 f2 by (simp add: eq tree_in_io)
    next
      case 2
      from learnNewAnimal_tree [OF t2 \<open>(c, X) \<in> set (leaves t)\<close>]
      show ?thesis using 2 \<open>(c, X) \<in> set (leaves t)\<close> unfolding f2 eq
        by (simp add: eq) blast
    next
      case 3
      then show ?thesis using t2 f2 by (simp add: eq tree_in_io)
    qed
  qed
qed

lemma listAnimals_tree:
  "tree_in s t \<Longrightarrow>
   listAnimals s = Some (Inr (print (msg_animals (labels t)) s))"
  by (simp add: listAnimals_def getRoot_def tree_in_def collectAnimals_repr)

lemma owns_all_io:
  "owns_all (s\<lparr>stdin := i\<rparr>) t = owns_all s t" "owns_all (print txt s) t = owns_all s t"
  by (simp_all add: owns_all_def tree_in_io)

lemma owns_all_learn:
  assumes o: "owns_all s t" and c: "(c, X) \<in> set (leaves t)"
    and t': "tree_in s' (replace c (learned c (brk s) x q ans X) t)"
    and d': "dom (heap s') = dom (heap s) \<union> {brk s, Suc (brk s)}"
  shows "owns_all s' (replace c (learned c (brk s) x q ans X) t)"
proof -
  from o have d: "distinct (addrs t)" and dm: "dom (heap s) = set (addrs t)"
    by (simp_all add: owns_all_def tree_in_def)
  from c have "c \<in> set (addrs t)" by (rule leaves_in_addrs)
  then have "set (addrs (replace c (learned c (brk s) x q ans X) t)) = set (addrs t) \<union> {brk s, Suc (brk s)}"
    by (auto simp: addrs_replace [OF c d] addrs_learned)
  with t' d' dm show ?thesis by (simp add: owns_all_def)
qed

lemma reachable_owns_all: "reachable s \<Longrightarrow> \<exists>t. owns_all s t"
proof (induction rule: reachable.induct)
  case (construct inp s)
  with AnimalTree_tree [of inp] show ?case
    by (auto simp: owns_all_def initial_tree_def)
next
  case (round s s')
  then obtain t where o: "owns_all s t" by blast
  then have t: "tree_in s t" and g: "getRoot s = Some (addr_of t)"
    by (simp_all add: owns_all_def tree_in_def getRoot_def)
  from askQuestions_tree [OF t] round.hyps(2) consider
    "tree_in s' t" "heap s' = heap s"
    | c X x q ans where "(c, X) \<in> set (leaves t)"
        "tree_in s' (replace c (learned c (brk s) x q ans X) t)"
        "dom (heap s') = dom (heap s) \<union> {brk s, Suc (brk s)}"
    unfolding g by auto
  then show ?case
  proof cases
    case 1
    with o have "owns_all s' t" by (simp add: owns_all_def)
    then show ?thesis ..
  next
    case 2
    from owns_all_learn [OF o 2] show ?thesis ..
  qed
next
  case (reset s s')
  then obtain t where o: "owns_all s t" by blast
  then have t: "tree_in s t" and d: "dom (heap s) = set (addrs t)" by (simp_all add: owns_all_def)
  from resetToInitialState_tree [OF t] reset.hyps(2)
  have "tree_in s' (initial_tree (brk s))"
    and "dom (heap s') = dom (heap s) - set (addrs t) \<union> {brk s, brk s + 1, brk s + 2}" by auto
  then have "owns_all s' (initial_tree (brk s))"
    using d by (auto simp: owns_all_def initial_tree_def)
  then show ?case ..
next
  case (list s s')
  then obtain t where o: "owns_all s t" by blast
  then have t: "tree_in s t" by (simp add: owns_all_def)
  from listAnimals_tree [OF t] list.hyps(2) o have "owns_all s' t"
    by (auto simp: owns_all_io)
  then show ?case ..
next
  case (input s inp)
  then show ?case by (simp add: owns_all_io)
qed

lemma AnimalTree_fresh_game: "AnimalTree inp = Some (Inr (fresh_game inp))"
proof -
  have d: "destroy (root (start inp)) ((heap (start inp))(brk (start inp) \<mapsto>
      Node_question ''Is your animal warm or cold blooded?'')) =
      Some (Inr ((heap (start inp))(brk (start inp) \<mapsto>
      Node_question ''Is your animal warm or cold blooded?'')))"
    by (simp add: start_def)
  note run = resetToInitialState_run [OF d]
  show ?thesis
    unfolding AnimalTree_def
    by (subst run) (simp_all add: start_def fresh_game_def Node_animal_def numeral_2_eq_2)
qed

lemma tree_in_fresh_game: "tree_in (fresh_game inp) (initial_tree 0)"
  by (simp add: tree_in_def fresh_game_def initial_tree_def)

lemma owns_all_fresh_game: "owns_all (fresh_game inp) (initial_tree 0)"
  by (auto simp: owns_all_def tree_in_fresh_game) (auto simp: fresh_game_def initial_tree_def split: if_splits)

lemma reachable_fresh_game: "reachable (fresh_game inp)"
  by (rule reachable.construct) (rule AnimalTree_fresh_game)

lemma default_shape_initial_tree:
  assumes "tree_in s (initial_tree b)"
  shows "default_shape s"
proof -
  from assms have r: "repr (heap s) (initial_tree b)" and g: "getRoot s = Some b"
    by (simp_all add: tree_in_def getRoot_def initial_tree_def)
  from collectAnimals_repr [OF r, of "[]"]
  have "collectAnimals (heap s) (getRoot s) [] = Some (Inr [''Dog'', ''Snake''])"
    by (simp add: g initial_tree_def labels_def)
  then show ?thesis
    using r by (simp add: default_shape_def g deref_def isLeaf_def initial_tree_def)
qed

lemma leaves_learned:
  "leaves (learned c b x q ans X) = (if ans = ''yes'' then [(b, x), (Suc b, X)] else [(Suc b, X), (b, x)])"
  by (simp add: learned_def)

lemma learnNewAnimal_labels:
  assumes t: "tree_in s t" and c: "(c, X) \<in> set (leaves t)"
    and run: "learnNewAnimal (Some c) s = Some (Inr s')"
  shows "\<exists>pre post. collectAnimals (heap s) (getRoot s) [] = Some (Inr (pre @ X # post))
     \<and> collectAnimals (heap s') (getRoot s') [] =
         Some (Inr (pre @ (if reply (tl (tl (stdin s))) = ''yes'' then [reply (stdin s), X]
                           else [X, reply (stdin s)]) @ post))"
proof -
  let ?new = "learned c (brk s) (reply (stdin s)) (reply (tl (stdin s))) (reply (tl (tl (stdin s)))) X"
  from learnNewAnimal_tree [OF t c] run have t': "tree_in s' (replace c ?new t)" by auto
  from t have d: "distinct (addrs t)" by (simp add: tree_in_def)
  from leaves_replace [OF c d, of ?new] obtain pre post where
    l: "leaves t = pre @ (c, X) # post" and l': "leaves (replace c ?new t) = pre @ leaves ?new @ post"
    by blast
  have "collectAnimals (heap s) (getRoot s) [] = Some (Inr (labels t))"
    using t collectAnimals_repr [of "heap s" t "[]"] by (simp add: tree_in_def getRoot_def)
  moreover have "collectAnimals (heap s') (getRoot s') [] = Some (Inr (labels (replace c ?new t)))"
    using t' collectAnimals_repr [of "heap s'" "replace c ?new t" "[]"]
    by (simp add: tree_in_def getRoot_def)
  ultimately have "collectAnimals (heap s) (getRoot s) [] = Some (Inr (map snd pre @ X # map snd post))
     \<and> collectAnimals (heap s') (getRoot s') [] =
         Some (Inr (map snd pre @ (if reply (tl (tl (stdin s))) = ''yes'' then [reply (stdin s), X]
                           else [X, reply (stdin s)]) @ map snd post))"
    by (simp add: labels_def l l' leaves_learned)
  then show ?thesis by blast
qed

lemma set_nodes: "tree_in s t \<Longrightarrow> set (nodes s) = dom (heap s)"
proof -
  assume "tree_in s t"
  then have "\<And>a. brk s \<le> a \<Longrightarrow> heap s a = None" by (simp add: tree_in_def)
  then have "\<And>a. heap s a \<noteq> None \<Longrightarrow> a < brk s" by (meson not_le)
  then show ?thesis by (auto simp: nodes_def dom_def)
qed

lemma filter_flip_one:
  assumes "distinct xs" "c \<in> set xs" "P c" "\<not> Q c" "\<And>a. a \<noteq> c \<Longrightarrow> Q a = P a"
  shows "length (filter P xs) = Suc (length (filter Q xs))"
  using assms(1,2)
proof (induction xs)
  case Nil
  then show ?case by simp
next
  case (Cons x xs)
  show ?case
  proof (cases "x = c")
    case True
    with Cons.prems have "c \<notin> set xs" by simp
    then have "filter Q xs = filter P xs"
      using assms(5) by (intro filter_cong) (metis, metis)
    with True assms(3,4) show ?thesis by simp
  next
    case False
    with Cons have "length (filter P xs) = Suc (length (filter Q xs))" by simp
    with False assms(5) [of x] show ?thesis by simp
  qed
qed

lemma learn_counts:
  assumes hc: "heap s c = Some \<lparr>question = q0, yes = None, no = None, animal = Some X\<rparr>"
    and c: "c < brk s"
    and h': "heap s' = (heap s)(brk s \<mapsto> Node_animal (Some x), Suc (brk s) \<mapsto> Node_animal (Some X),
                c \<mapsto> \<lparr>question = q, yes = y, no = n, animal = None\<rparr>)"
    and b': "brk s' = Suc (Suc (brk s))"
  shows "nodes s' = nodes s @ [brk s, Suc (brk s)]"
    and "node_count s' = node_count s + 2"
    and "leaf_count s' = leaf_count s + 1"
    and "question_count s' = question_count s + 1"
proof -
  have same: "(heap s' a \<noteq> None) = (heap s a \<noteq> None)" if "a < brk s" for a
    using that hc by (auto simp: h')
  have "filter (\<lambda>a. heap s' a \<noteq> None) [0..<brk s] = filter (\<lambda>a. heap s a \<noteq> None) [0..<brk s]"
    using same by (intro filter_cong) auto
  then show n: "nodes s' = nodes s @ [brk s, Suc (brk s)]"
    using c by (simp add: nodes_def b' h')
  then show "node_count s' = node_count s + 2" by (simp add: node_count_def)
  have d: "distinct (nodes s)" by (simp add: nodes_def)
  have cn: "c \<in> set (nodes s)" using c hc by (simp add: nodes_def)
  let ?L = "\<lambda>a. case heap s a of None \<Rightarrow> False | Some n \<Rightarrow> isLeaf n"
  let ?L' = "\<lambda>a. case heap s' a of None \<Rightarrow> False | Some n \<Rightarrow> isLeaf n"
  let ?Q = "\<lambda>a. case heap s a of None \<Rightarrow> False | Some n \<Rightarrow> \<not> isLeaf n"
  let ?Q' = "\<lambda>a. case heap s' a of None \<Rightarrow> False | Some n \<Rightarrow> \<not> isLeaf n"
  have out: "a \<in> set (nodes s) \<Longrightarrow> a \<noteq> brk s \<and> a \<noteq> Suc (brk s)" for a
    by (auto simp: nodes_def)
  have "length (filter ?L (nodes s)) = Suc (length (filter ?L' (nodes s)))"
  proof -
    have "filter ?L' (nodes s) = filter (\<lambda>a. a \<noteq> c \<and> ?L a) (nodes s)"
      using out by (intro filter_cong) (auto simp: h' isLeaf_def)
    moreover have "length (filter ?L (nodes s)) = Suc (length (filter (\<lambda>a. a \<noteq> c \<and> ?L a) (nodes s)))"
      using d cn by (rule filter_flip_one) (auto simp: hc isLeaf_def)
    ultimately show ?thesis by simp
  qed
  then show "leaf_count s' = leaf_count s + 1"
    using c by (simp add: leaf_count_def n h' isLeaf_def Node_animal_def)
  have "length (filter ?Q' (nodes s)) = Suc (length (filter ?Q (nodes s)))"
  proof -
    have "filter ?Q (nodes s) = filter (\<lambda>a. a \<noteq> c \<and> ?Q' a) (nodes s)"
      using out by (intro filter_cong) (auto simp: h' hc isLeaf_def)
    moreover have "length (filter ?Q' (nodes s)) = Suc (length (filter (\<lambda>a. a \<noteq> c \<and> ?Q' a) (nodes s)))"
      using d cn by (rule filter_flip_one) (auto simp: h' isLeaf_def)
    ultimately show ?thesis by simp
  qed
  then show "question_count s' = question_count s + 1"
    using c by (simp add: question_count_def n h' isLeaf_def Node_animal_def)
qed

lemma round_teaching_cat:
  "askQuestions (getRoot (fresh_game (''yes'' # ''no'' # ''Cat'' # ''Does it bark?'' # ''no'' # inp)))
     (fresh_game (''yes'' # ''no'' # ''Cat'' # ''Does it bark?'' # ''no'' # inp))
   = Some (Inr (cat_game inp))"
proof -
  let ?s0 = "fresh_game (''yes'' # ''no'' # ''Cat'' # ''Does it bark?'' # ''no'' # inp)"
  let ?s1 = "(print (prompt_question ''Is your animal warm or cold blooded?'') ?s0)
               \<lparr>stdin := ''no'' # ''Cat'' # ''Does it bark?'' # ''no'' # inp\<rparr>"
  let ?s2 = "(print (prompt_guess ''Dog'') ?s1)\<lparr>stdin := ''Cat'' # ''Does it bark?'' # ''no'' # inp\<rparr>"
  have h0: "heap ?s0 0 = Some \<lparr>question = ''Is your animal warm or cold blooded?'',
                yes = Some 1, no = Some 2, animal = None\<rparr>"
    and i0: "stdin ?s0 = ''yes'' # ''no'' # ''Cat'' # ''Does it bark?'' # ''no'' # inp"
    by (simp_all add: fresh_game_def)
  have h1: "heap ?s1 1 = Some \<lparr>question = [], yes = None, no = None, animal = Some ''Dog''\<rparr>"
    by (simp add: fresh_game_def)
  have loop: "askQuestions_loop (Some 0) ?s0 = Some (Inr (Some 1, ?s1))"
    using askQuestions_loop_at_leaf [OF h1]
    by (subst askQuestions_loop_answer [OF h0 _ i0]) (simp_all add: isLeaf_def)
  have learn: "learnNewAnimal (Some 1) ?s2 = Some (Inr (cat_game inp))"
    by (subst learnNewAnimal_state [of _ _ "[]" "''Dog''"])
       (simp_all add: fresh_game_def cat_game_def print_def reply_def Node_animal_def
          numeral_2_eq_2 numeral_3_eq_3 eval_nat_numeral fun_upd_twist)
  show ?thesis
    unfolding getRoot_def
    using askQuestions_after_loop [OF _ h1, of "Some 0" ?s0 "''Dog''"] loop learn
    by (simp add: fresh_game_def reply_def)
qed

lemma tree_in_cat_game: "tree_in (cat_game inp) cat_tree"
  by (simp add: tree_in_def cat_game_def cat_tree_def)

lemma reachable_cat_game: "reachable (cat_game inp)"
  using reachable.round [OF reachable_fresh_game round_teaching_cat] .

lemma repr_live: "repr h t \<Longrightarrow> a \<in> set (addrs t) \<Longrightarrow> \<exists>n. h a = Some n"
  by (induction t) auto

lemma repr_children:
  "repr h t \<Longrightarrow> a \<in> set (addrs t) \<Longrightarrow> h a = Some n \<Longrightarrow> \<not> isLeaf n \<Longrightarrow>
   \<exists>y k ny nk. yes n = Some y \<and> no n = Some k \<and> h y = Some ny \<and> h k = Some nk"
proof (induction t)
  case (LeafAt b q x)
  then show ?case by (auto simp: isLeaf_def)
next
  case (QuestionAt b q ty tn)
  show ?case
  proof (cases "a = b")
    case True
    from QuestionAt.prems(1) have "repr h ty" "repr h tn" by simp_all
    then have "\<exists>ny. h (addr_of ty) = Some ny" "\<exists>nk. h (addr_of tn) = Some nk"
      by (auto intro: repr_live)
    with True QuestionAt.prems show ?thesis by auto
  next
    case False
    with QuestionAt show ?thesis by auto
  qed
qed

lemma walk_None [simp]: "walk h None p = None"
  by (cases p) simp_all

lemma walk_descend:
  "repr h t \<Longrightarrow> walk h (Some (addr_of t)) p = Some c \<Longrightarrow>
   \<exists>t'. descend t p = Some t' \<and> addr_of t' = c"
proof (induction p arbitrary: t)
  case Nil
  then show ?case by simp
next
  case (Cons b bs)
  show ?case
  proof (cases t)
    case (LeafAt a q x)
    with Cons.prems show ?thesis by (cases b) simp_all
  next
    case (QuestionAt a q ty tn)
    with Cons.prems have "repr h ty" "repr h tn"
      and "walk h (Some (addr_of (if b then ty else tn))) bs = Some c" by auto
    then have "\<exists>t'. descend (if b then ty else tn) bs = Some t' \<and> addr_of t' = c"
      by (intro Cons.IH) auto
    with QuestionAt show ?thesis by simp
  qed
qed

lemma descend_addrs: "descend t p = Some t' \<Longrightarrow> set (addrs t') \<subseteq> set (addrs t)"
proof (induction t p rule: descend.induct)
  case (1 t)
  then show ?case by simp
next
  case (2 a q x b bs)
  then show ?case by simp
next
  case (3 a q ty tn b bs)
  then show ?case by (cases b) auto
qed

lemma descend_distinct: "descend t p = Some t' \<Longrightarrow> distinct (addrs t) \<Longrightarrow> distinct (addrs t')"
proof (induction t p rule: descend.induct)
  case (1 t)
  then show ?case by simp
next
  case (2 a q x b bs)
  then show ?case by simp
next
  case (3 a q ty tn b bs)
  then show ?case by (cases b) auto
qed

lemma descend_repr: "descend t p = Some t' \<Longrightarrow> repr h t \<Longrightarrow> repr h t'"
proof (induction t p rule: descend.induct)
  case (1 t)
  then show ?case by simp
next
  case (2 a q x b bs)
  then show ?case by simp
next
  case (3 a q ty tn b bs)
  then show ?case by (cases b) auto
qed

lemma descend_below:
  assumes "descend t p = Some t'" "distinct (addrs t)" "p \<noteq> []"
  shows "addr_of t' \<noteq> addr_of t"
proof (cases t)
  case (LeafAt a q x)
  with assms show ?thesis by (cases p) auto
next
  case (QuestionAt a q ty tn)
  from assms(3) obtain b bs where p: "p = b # bs" by (cases p) auto
  with assms(1) QuestionAt have "descend (if b then ty else tn) bs = Some t'" by simp
  then have "set (addrs t') \<subseteq> set (addrs (if b then ty else tn))" by (rule descend_addrs)
  then have "addr_of t' \<in> set (addrs (if b then ty else tn))" using addr_of_in_addrs by blast
  with assms(2) QuestionAt show ?thesis by (cases b) auto
qed

lemma subtree_at:
  "repr h t \<Longrightarrow> distinct (addrs t) \<Longrightarrow> a \<in> set (addrs t) \<Longrightarrow>
   \<exists>u. repr h u \<and> distinct (addrs u) \<and> addr_of u = a"
proof (induction t)
  case (LeafAt b q x)
  then have "repr h (LeafAt b q x) \<and> distinct (addrs (LeafAt b q x)) \<and> addr_of (LeafAt b q x) = a"
    by simp
  then show ?case by blast
next
  case (QuestionAt b q ty tn)
  show ?case
  proof (cases "a = b")
    case True
    with QuestionAt.prems have "repr h (QuestionAt b q ty tn) \<and> distinct (addrs (QuestionAt b q ty tn))
      \<and> addr_of (QuestionAt b q ty tn) = a" by simp
    then show ?thesis by blast
  next
    case False
    with QuestionAt.prems have "a \<in> set (addrs ty) \<or> a \<in> set (addrs tn)" by auto
    with QuestionAt show ?thesis by auto
  qed
qed

lemma no_cycle:
  assumes "repr h t" "distinct (addrs t)" "a \<in> set (addrs t)" "walk h (Some a) p = Some a"
  shows "p = []"
proof (rule ccontr)
  assume ne: "p \<noteq> []"
  from subtree_at [OF assms(1-3)] obtain u where
    u: "repr h u" "distinct (addrs u)" "addr_of u = a" by blast
  from walk_descend [OF u(1), of p a] assms(4) u(3) obtain u' where
    "descend u p = Some u'" "addr_of u' = a" by auto
  with descend_below [OF this(1) u(2) ne] u(3) show False by simp
qed

lemma cursors_trail:
  "repr h t \<Longrightarrow> descend t p = Some t' \<Longrightarrow>
   cursors h (Some (addr_of t)) (map token p) = map Some (trail t p)"
proof (induction t p rule: descend.induct)
  case (1 t)
  then show ?case by simp
next
  case (2 a q x b bs)
  then show ?case by simp
next
  case (3 a q ty tn b bs)
  then show ?case
    by (cases b) (auto simp: deref_def isLeaf_def token_def)
qed

lemma trail_facts:
  "descend t p = Some t' \<Longrightarrow> distinct (addrs t) \<Longrightarrow>
   distinct (trail t p) \<and> set (trail t p) \<subseteq> set (addrs t) \<and> length (trail t p) = Suc (length p)
   \<and> last (trail t p) = addr_of t' \<and> hd (trail t p) = addr_of t"
proof (induction t p rule: descend.induct)
  case (1 t)
  then show ?case by simp
next
  case (2 a q x b bs)
  then show ?case by simp
next
  case (3 a q ty tn b bs)
  then have d: "descend (if b then ty else tn) bs = Some t'"
    and dd: "distinct (addrs (if b then ty else tn))" by auto
  from 3 have a: "a \<notin> set (addrs (if b then ty else tn))" by auto
  have ih: "distinct (trail (if b then ty else tn) bs)
    \<and> set (trail (if b then ty else tn) bs) \<subseteq> set (addrs (if b then ty else tn))
    \<and> length (trail (if b then ty else tn) bs) = Suc (length bs)
    \<and> last (trail (if b then ty else tn) bs) = addr_of t'"
    using 3(1,2) d dd by (cases b) auto
  then have "trail (if b then ty else tn) bs \<noteq> []" by auto
  with ih a show ?case by (cases b) auto
qed

lemma askQuestions_loop_descend:
  "repr (heap s) t \<Longrightarrow> descend t p = Some (LeafAt c q x) \<Longrightarrow> stdin s = map token p @ rest \<Longrightarrow>
   \<exists>out. askQuestions_loop (Some (addr_of t)) s = Some (Inr (Some c, s\<lparr>stdin := rest, stdout := out\<rparr>))"
proof (induction p arbitrary: t s)
  case Nil
  then have "askQuestions_loop (Some c) s = Some (Inr (Some c, s))"
    by (simp add: askQuestions_loop_at_leaf isLeaf_def)
  moreover have "s = s\<lparr>stdin := rest, stdout := stdout s\<rparr>"
    using Nil.prems(3) by simp
  ultimately have "askQuestions_loop (Some (addr_of t)) s
      = Some (Inr (Some c, s\<lparr>stdin := rest, stdout := stdout s\<rparr>))"
    using Nil.prems(2) by simp
  then show ?case by (rule exI)
next
  case (Cons b bs)
  show ?case
  proof (cases t)
    case (LeafAt a q' x')
    with Cons.prems show ?thesis by simp
  next
    case (QuestionAt a q' ty tn)
    let ?n = "\<lparr>question = q', yes = Some (addr_of ty), no = Some (addr_of tn), animal = None\<rparr>"
    let ?s2 = "(print (prompt_question q') s)\<lparr>stdin := map token bs @ rest\<rparr>"
    let ?u = "if b then ty else tn"
    from QuestionAt Cons.prems have h: "heap s a = Some ?n" and ru: "repr (heap s) ?u"
      and du: "descend ?u bs = Some (LeafAt c q x)"
      and i: "stdin s = token b # (map token bs @ rest)" by auto
    have nl: "\<not> isLeaf ?n" by (simp add: isLeaf_def)
    have step: "askQuestions_loop (Some a) s = askQuestions_loop (Some (addr_of ?u)) ?s2"
      by (subst askQuestions_loop_answer [OF h nl i]) (simp add: token_def)
    have "\<exists>out. askQuestions_loop (Some (addr_of ?u)) ?s2
        = Some (Inr (Some c, ?s2\<lparr>stdin := rest, stdout := out\<rparr>))"
      using ru du by (intro Cons.IH) simp_all
    then obtain out where "askQuestions_loop (Some (addr_of ?u)) ?s2
        = Some (Inr (Some c, s\<lparr>stdin := rest, stdout := out\<rparr>))"
      by (auto simp: print_def)
    with step QuestionAt show ?thesis by auto
  qed
qed

lemma tree_in_two_trees: "tree_in (two_trees inp) (initial_tree 0)"
  by (simp add: tree_in_def two_trees_def initial_tree_def)

lemma length_addrs_replace:
  assumes c: "(c, X) \<in> set (leaves t)" and d: "distinct (addrs t)"
    and dn: "distinct (addrs new)" and f: "set (addrs new) \<inter> set (addrs t) \<subseteq> {c}"
    and cn: "c \<in> set (addrs new)"
  shows "Suc (length (addrs (replace c new t))) = length (addrs t) + length (addrs new)"
proof -
  have ct: "c \<in> set (addrs t)" using c by (rule leaves_in_addrs)
  have d': "distinct (addrs (replace c new t))" using c d dn f by (rule distinct_replace)
  have "length (addrs (replace c new t)) = card (set (addrs (replace c new t)))"
    using d' by (simp add: distinct_card)
  also have "\<dots> = card ((set (addrs t) - {c}) \<union> set (addrs new))"
    by (simp add: addrs_replace [OF c d])
  also have "\<dots> = card (set (addrs t) - {c}) + card (set (addrs new))"
    using f by (intro card_Un_disjoint) auto
  also have "\<dots> = (length (addrs t) - 1) + length (addrs new)"
    using ct d dn by (simp add: distinct_card)
  finally show ?thesis using ct by (cases "addrs t") auto
qed

lemma length_leaves_replace:
  assumes c: "(c, X) \<in> set (leaves t)" and d: "distinct (addrs t)"
  shows "Suc (length (leaves (replace c new t))) = length (leaves t) + length (leaves new)"
  using leaves_replace [OF c d, of new] by auto

lemma askQuestions_loop_spec:
  "repr (heap s) t \<Longrightarrow>
   askQuestions_loop (Some (addr_of t)) s =
     (case spec_traversing t (stdin s) of None \<Rightarrow> None
      | Some (c, rest, out) \<Rightarrow> Some (Inr (Some c, s\<lparr>stdin := rest, stdout := stdout s @ out\<rparr>)))"
proof (induction "stdin s" arbitrary: s t)
  case Nil
  show ?case
  proof (cases t)
    case (LeafAt a q x)
    with Nil.prems Nil.hyps [symmetric] show ?thesis
      by (simp add: askQuestions_loop_at_leaf isLeaf_def)
  next
    case (QuestionAt a q ty tn)
    with Nil.prems Nil.hyps [symmetric] show ?thesis
      by (simp add: askQuestions_loop_eof isLeaf_def)
  qed
next
  case (Cons answer rest)
  note i = Cons.hyps(2) [symmetric]
  show ?case
  proof (cases t)
    case (LeafAt a q x)
    with Cons.prems show ?thesis
      by (simp add: askQuestions_loop_at_leaf isLeaf_def)
  next
    case (QuestionAt a q ty tn)
    let ?n = "\<lparr>question = q, yes = Some (addr_of ty), no = Some (addr_of tn), animal = None\<rparr>"
    let ?s2 = "(print (prompt_question q) s)\<lparr>stdin := rest\<rparr>"
    from QuestionAt Cons.prems have h: "heap s a = Some ?n" and ry: "repr (heap s) ty"
      and rn: "repr (heap s) tn" by simp_all
    have nl: "\<not> isLeaf ?n" by (simp add: isLeaf_def)
    note step = askQuestions_loop_answer [OF h nl i]
    have ih: "askQuestions_loop (Some (addr_of u)) s' =
       (case spec_traversing u rest of None \<Rightarrow> None
        | Some (c, r, out) \<Rightarrow> Some (Inr (Some c, s'\<lparr>stdin := r, stdout := stdout s' @ out\<rparr>)))"
      if "repr (heap s') u" "stdin s' = rest" for u s'
      using Cons.hyps(1) [of s' u] that by simp
    have y: "askQuestions_loop (Some (addr_of ty)) ?s2 =
       (case spec_traversing ty rest of None \<Rightarrow> None
        | Some (c, r, out) \<Rightarrow>
            Some (Inr (Some c, s\<lparr>stdin := r, stdout := stdout s @ prompt_question q @ out\<rparr>)))"
      using ry by (subst ih) (auto simp: print_def split: option.splits)
    have n: "askQuestions_loop (Some (addr_of tn)) ?s2 =
       (case spec_traversing tn rest of None \<Rightarrow> None
        | Some (c, r, out) \<Rightarrow>
            Some (Inr (Some c, s\<lparr>stdin := r, stdout := stdout s @ prompt_question q @ out\<rparr>)))"
      using rn by (subst ih) (auto simp: print_def split: option.splits)
    have o: "askQuestions_loop (Some a) (print please ?s2) =
       (case spec_traversing t rest of None \<Rightarrow> None
        | Some (c, r, out) \<Rightarrow>
            Some (Inr (Some c, s\<lparr>stdin := r, stdout := stdout s @ prompt_question q @ please @ out\<rparr>)))"
      using Cons.prems ih [of "print please ?s2" t] QuestionAt
      by (auto simp: print_def split: option.splits)
    show ?thesis
      unfolding QuestionAt addr_of.simps step
      using y n o unfolding QuestionAt
      by (auto simp: i split: option.splits)
  qed
qed

lemma repr_second_tree: "repr (heap (two_trees inp)) (initial_tree 3)"
  by (simp add: two_trees_def initial_tree_def)

section \<open>The claims\<close>

text \<open>
  C1.  For every well-formed tree in the store and every leaf \<open>c\<close> of it holding \<open>X\<close>,
  \<^verbatim>\<open>learnNewAnimal\<close> on that leaf, reading the new name, the question and the answer yes
  or no, returns; the node at \<open>c\<close> is then a question node with the question read, a new
  leaf holding the new name and a new leaf holding \<open>X\<close> as children (the new name on the
  \<open>yes\<close> side for the answer yes, on the \<open>no\<close> side for the answer no); no other node
  changes; and \<^verbatim>\<open>collectAnimals\<close> yields the labels it yielded before with the new name
  put right before (yes) or right after (no) that \<open>X\<close>: as a multiset, the old labels
  plus the new name.
\<close>

theorem learn_splits_leaf:
  assumes "tree_in s t" and "(c, X) \<in> set (leaves t)"
    and "stdin s = newLabel # q # answer # rest"
    and "answer = ''yes'' \<or> answer = ''no''"
  shows "\<exists>s' new old.
      learnNewAnimal (Some c) s = Some (Inr s')
    \<and> heap s new = None \<and> heap s old = None \<and> new \<noteq> old
    \<and> heap s' new = Some \<lparr>question = [], yes = None, no = None, animal = Some newLabel\<rparr>
    \<and> heap s' old = Some \<lparr>question = [], yes = None, no = None, animal = Some X\<rparr>
    \<and> heap s' c = Some (if answer = ''yes''
                        then \<lparr>question = q, yes = Some new, no = Some old, animal = None\<rparr>
                        else \<lparr>question = q, yes = Some old, no = Some new, animal = None\<rparr>)
    \<and> (\<forall>a. a \<noteq> c \<and> a \<noteq> new \<and> a \<noteq> old \<longrightarrow> heap s' a = heap s a)
    \<and> getRoot s' = getRoot s
    \<and> (\<exists>pre post ls'.
          collectAnimals (heap s) (getRoot s) [] = Some (Inr (pre @ X # post))
        \<and> collectAnimals (heap s') (getRoot s') [] = Some (Inr ls')
        \<and> ls' = pre @ (if answer = ''yes'' then [newLabel, X] else [X, newLabel]) @ post
        \<and> mset ls' = add_mset newLabel (mset (pre @ X # post)))"
proof -
  from assms(3) have i: "reply (stdin s) = newLabel" "reply (tl (stdin s)) = q"
    "reply (tl (tl (stdin s))) = answer" by (simp_all add: reply_def)
  from learnNewAnimal_heap [OF assms(1,2)] obtain s' q0 where
    run: "learnNewAnimal (Some c) s = Some (Inr s')"
    and hc: "heap s c = Some \<lparr>question = q0, yes = None, no = None, animal = Some X\<rparr>"
    and h': "heap s' = (heap s)
          (brk s \<mapsto> Node_animal (Some newLabel),
           Suc (brk s) \<mapsto> Node_animal (Some X),
           c \<mapsto> (if answer = ''yes''
                 then \<lparr>question = q, yes = Some (brk s), no = Some (Suc (brk s)), animal = None\<rparr>
                 else \<lparr>question = q, yes = Some (Suc (brk s)), no = Some (brk s), animal = None\<rparr>))"
    and r': "root s' = root s"
    unfolding i by blast
  from assms(1) have top: "heap s (brk s) = None" "heap s (Suc (brk s)) = None"
    by (simp_all add: tree_in_def)
  with hc have ne: "c \<noteq> brk s" "c \<noteq> Suc (brk s)" by auto
  from learnNewAnimal_labels [OF assms(1,2) run] obtain pre post where
    l: "collectAnimals (heap s) (getRoot s) [] = Some (Inr (pre @ X # post))"
    and l': "collectAnimals (heap s') (getRoot s') [] =
         Some (Inr (pre @ (if answer = ''yes'' then [newLabel, X] else [X, newLabel]) @ post))"
    unfolding i by blast
  have m: "mset (pre @ (if answer = ''yes'' then [newLabel, X] else [X, newLabel]) @ post)
      = add_mset newLabel (mset (pre @ X # post))" by simp
  have "heap s (brk s) = None \<and> heap s (Suc (brk s)) = None \<and> brk s \<noteq> Suc (brk s)
    \<and> heap s' (brk s) = Some \<lparr>question = [], yes = None, no = None, animal = Some newLabel\<rparr>
    \<and> heap s' (Suc (brk s)) = Some \<lparr>question = [], yes = None, no = None, animal = Some X\<rparr>
    \<and> heap s' c = Some (if answer = ''yes''
                        then \<lparr>question = q, yes = Some (brk s), no = Some (Suc (brk s)), animal = None\<rparr>
                        else \<lparr>question = q, yes = Some (Suc (brk s)), no = Some (brk s), animal = None\<rparr>)
    \<and> (\<forall>a. a \<noteq> c \<and> a \<noteq> brk s \<and> a \<noteq> Suc (brk s) \<longrightarrow> heap s' a = heap s a)
    \<and> getRoot s' = getRoot s"
    using top ne r' by (simp add: h' Node_animal_def getRoot_def)
  with run l l' m show ?thesis by blast
qed

theorem learn_splits_leaf_witness:
  "tree_in (fresh_game [''Cat'', ''Does it bark?'', ''no'']) (initial_tree 0)
   \<and> (1, ''Dog'') \<in> set (leaves (initial_tree 0))
   \<and> stdin (fresh_game [''Cat'', ''Does it bark?'', ''no'']) = [''Cat'', ''Does it bark?'', ''no'']
   \<and> (\<exists>s' new old.
        learnNewAnimal (Some 1) (fresh_game [''Cat'', ''Does it bark?'', ''no'']) = Some (Inr s')
      \<and> new \<noteq> old
      \<and> heap s' new = Some \<lparr>question = [], yes = None, no = None, animal = Some ''Cat''\<rparr>
      \<and> heap s' old = Some \<lparr>question = [], yes = None, no = None, animal = Some ''Dog''\<rparr>
      \<and> heap s' 1 = Some \<lparr>question = ''Does it bark?'', yes = Some old, no = Some new, animal = None\<rparr>
      \<and> (\<exists>pre post ls'.
            collectAnimals (heap (fresh_game [''Cat'', ''Does it bark?'', ''no'']))
              (getRoot (fresh_game [''Cat'', ''Does it bark?'', ''no''])) [] = Some (Inr (pre @ ''Dog'' # post))
          \<and> collectAnimals (heap s') (getRoot s') [] = Some (Inr ls')
          \<and> ls' = pre @ [''Dog'', ''Cat''] @ post))"
proof -
  let ?s = "fresh_game [''Cat'', ''Does it bark?'', ''no'']"
  have t: "tree_in ?s (initial_tree 0)" by (rule tree_in_fresh_game)
  have c: "(1, ''Dog'') \<in> set (leaves (initial_tree 0))" by (simp add: initial_tree_def)
  have i: "stdin ?s = ''Cat'' # ''Does it bark?'' # ''no'' # []" by (simp add: fresh_game_def)
  have a: "''no'' = ''yes'' \<or> ''no'' = ''no''" by simp
  from learn_splits_leaf [OF t c i a] obtain s' new old pre post ls' where
    "learnNewAnimal (Some 1) ?s = Some (Inr s')" "new \<noteq> old"
    "heap s' new = Some \<lparr>question = [], yes = None, no = None, animal = Some ''Cat''\<rparr>"
    "heap s' old = Some \<lparr>question = [], yes = None, no = None, animal = Some ''Dog''\<rparr>"
    "heap s' 1 = Some \<lparr>question = ''Does it bark?'', yes = Some old, no = Some new, animal = None\<rparr>"
    "collectAnimals (heap ?s) (getRoot ?s) [] = Some (Inr (pre @ ''Dog'' # post))"
    "collectAnimals (heap s') (getRoot s') [] = Some (Inr ls')"
    "ls' = pre @ [''Dog'', ''Cat''] @ post"
    by auto
  with t c i show ?thesis by blast
qed

text \<open>
  C2, as stated, fails.  The game owns the tree at 0, 1, 2, and \<^verbatim>\<open>learnNewAnimal\<close> is given
  the address 4, a leaf of the other tree.  The call signals nothing: it returns, and the
  leaf of the other tree has become a question node.
\<close>

theorem learn_foreign_leaf_returns:
  "tree_in (two_trees [''Cat'', ''Does it bark?'', ''no'']) (initial_tree 0)
   \<and> 4 \<notin> set (addrs (initial_tree 0))
   \<and> learnNewAnimal (Some 4) (two_trees [''Cat'', ''Does it bark?'', ''no''])
       = Some (Inr ((two_trees [])
           \<lparr>heap := (heap (two_trees []))
              (6 \<mapsto> \<lparr>question = [], yes = None, no = None, animal = Some ''Cat''\<rparr>,
               7 \<mapsto> \<lparr>question = [], yes = None, no = None, animal = Some ''Dog''\<rparr>,
               4 \<mapsto> \<lparr>question = ''Does it bark?'', yes = Some 7, no = Some 6, animal = None\<rparr>),
            brk := 8,
            stdout := msg_give_up @ prompt_distinguish ''Cat'' ''Dog'' @ prompt_answer ''Cat''
                      @ msg_got_it\<rparr>))"
proof -
  let ?s = "two_trees [''Cat'', ''Does it bark?'', ''no'']"
  have h: "heap ?s 4 = Some \<lparr>question = [], yes = None, no = None, animal = Some ''Dog''\<rparr>"
    by (simp add: two_trees_def)
  have ne: "4 \<noteq> brk ?s" "4 \<noteq> Suc (brk ?s)" by (simp_all add: two_trees_def)
  have "learnNewAnimal (Some 4) ?s
       = Some (Inr ((two_trees [])
           \<lparr>heap := (heap (two_trees []))
              (6 \<mapsto> \<lparr>question = [], yes = None, no = None, animal = Some ''Cat''\<rparr>,
               7 \<mapsto> \<lparr>question = [], yes = None, no = None, animal = Some ''Dog''\<rparr>,
               4 \<mapsto> \<lparr>question = ''Does it bark?'', yes = Some 7, no = Some 6, animal = None\<rparr>),
            brk := 8,
            stdout := msg_give_up @ prompt_distinguish ''Cat'' ''Dog'' @ prompt_answer ''Cat''
                      @ msg_got_it\<rparr>))"
    by (subst learnNewAnimal_state [OF h ne])
       (simp add: two_trees_def reply_def Node_animal_def eval_nat_numeral)
  moreover have "4 \<notin> set (addrs (initial_tree 0))" by (simp add: initial_tree_def)
  ultimately show ?thesis using tree_in_two_trees by blast
qed

text \<open>
  C2, amended.  For every well-formed tree \<open>t\<close> in the store and every leaf \<open>a\<close> of a
  different tree \<open>u\<close> in the store, \<^verbatim>\<open>learnNewAnimal\<close> on \<open>a\<close> signals nothing: it returns,
  having made of that other leaf a question node with two new leaves, and \<open>t\<close> is left
  completely unmodified: every node of \<open>t\<close> and the root are as before and
  \<^verbatim>\<open>collectAnimals\<close> from the root yields what it did.  (\<open>reply\<close> gives what the three
  reads obtain.  The function has no check of its reference and no error path; what it
  does with a question node or with a node destroyed by a reset is left out.)
\<close>

theorem learn_foreign_leaf_leaves_tree:
  assumes "tree_in s t" and "repr (heap s) u" and "(a, X) \<in> set (leaves u)"
    and "a \<notin> set (addrs t)"
  shows "\<exists>s' new old.
      learnNewAnimal (Some a) s = Some (Inr s')
    \<and> tree_in s' t
    \<and> (\<forall>b \<in> set (addrs t). heap s' b = heap s b)
    \<and> getRoot s' = getRoot s
    \<and> collectAnimals (heap s') (getRoot s') [] = collectAnimals (heap s) (getRoot s) []
    \<and> heap s new = None \<and> heap s old = None \<and> new \<noteq> old
    \<and> heap s' new = Some \<lparr>question = [], yes = None, no = None, animal = Some (reply (stdin s))\<rparr>
    \<and> heap s' old = Some \<lparr>question = [], yes = None, no = None, animal = Some X\<rparr>
    \<and> heap s' a = Some (if reply (tl (tl (stdin s))) = ''yes''
          then \<lparr>question = reply (tl (stdin s)), yes = Some new, no = Some old, animal = None\<rparr>
          else \<lparr>question = reply (tl (stdin s)), yes = Some old, no = Some new, animal = None\<rparr>)"
proof -
  from repr_leaf [OF assms(2,3)] obtain q0 where
    hc: "heap s a = Some \<lparr>question = q0, yes = None, no = None, animal = Some X\<rparr>" by blast
  from assms(1) have top: "\<And>b. brk s \<le> b \<Longrightarrow> heap s b = None" and r: "repr (heap s) t"
    and d: "distinct (addrs t)" and rt: "root s = Some (addr_of t)" by (simp_all add: tree_in_def)
  from top [of a] top [of "Suc (brk s)"] hc have ne: "a \<noteq> brk s" "a \<noteq> Suc (brk s)" by auto
  have below: "b < brk s" if "b \<in> set (addrs t)" for b
    using assms(1) that by (rule tree_in_below)
  let ?h = "(heap s)
          (brk s \<mapsto> Node_animal (Some (reply (stdin s))),
           Suc (brk s) \<mapsto> Node_animal (Some X),
           a \<mapsto> (if reply (tl (tl (stdin s))) = ''yes''
                 then \<lparr>question = reply (tl (stdin s)), yes = Some (brk s), no = Some (Suc (brk s)), animal = None\<rparr>
                 else \<lparr>question = reply (tl (stdin s)), yes = Some (Suc (brk s)), no = Some (brk s), animal = None\<rparr>))"
  let ?s' = "s\<lparr>heap := ?h, brk := Suc (Suc (brk s)), stdin := tl (tl (tl (stdin s))),
      stdout := stdout s @ msg_give_up @ prompt_distinguish (reply (stdin s)) X
        @ prompt_answer (reply (stdin s)) @ msg_got_it\<rparr>"
  have run: "learnNewAnimal (Some a) s = Some (Inr ?s')"
    by (rule learnNewAnimal_state [OF hc ne])
  have same: "?h b = heap s b" if "b \<in> set (addrs t)" for b
    using below [OF that] that assms(4) by auto
  then have "repr ?h t = repr (heap s) t" by (rule repr_frame)
  with r have r': "repr ?h t" by simp
  have "?h b = None" if "Suc (Suc (brk s)) \<le> b" for b
    using that top [of b] top [of a] hc by auto
  with r' d rt have t': "tree_in ?s' t" by (simp add: tree_in_def)
  have col: "collectAnimals (heap ?s') (getRoot ?s') [] = collectAnimals (heap s) (getRoot s) []"
    using collectAnimals_repr [OF r', of "[]"] collectAnimals_repr [OF r, of "[]"] rt
    by (simp add: getRoot_def)
  have nodes: "heap s (brk s) = None \<and> heap s (Suc (brk s)) = None \<and> brk s \<noteq> Suc (brk s)
    \<and> heap ?s' (brk s) = Some \<lparr>question = [], yes = None, no = None, animal = Some (reply (stdin s))\<rparr>
    \<and> heap ?s' (Suc (brk s)) = Some \<lparr>question = [], yes = None, no = None, animal = Some X\<rparr>
    \<and> heap ?s' a = Some (if reply (tl (tl (stdin s))) = ''yes''
          then \<lparr>question = reply (tl (stdin s)), yes = Some (brk s), no = Some (Suc (brk s)), animal = None\<rparr>
          else \<lparr>question = reply (tl (stdin s)), yes = Some (Suc (brk s)), no = Some (brk s), animal = None\<rparr>)"
    using top [of "brk s"] top [of "Suc (brk s)"] ne by (simp add: Node_animal_def)
  have fr: "\<forall>b \<in> set (addrs t). heap ?s' b = heap s b" using same by simp
  have g: "getRoot ?s' = getRoot s" by (simp add: getRoot_def)
  from run t' fr g col nodes show ?thesis by blast
qed

theorem learn_foreign_leaf_leaves_tree_witness:
  "tree_in (two_trees [''Cat'', ''Does it bark?'', ''no'']) (initial_tree 0)
   \<and> repr (heap (two_trees [''Cat'', ''Does it bark?'', ''no''])) (initial_tree 3)
   \<and> (4, ''Dog'') \<in> set (leaves (initial_tree 3))
   \<and> 4 \<notin> set (addrs (initial_tree 0))
   \<and> (\<exists>s' new old.
         learnNewAnimal (Some 4) (two_trees [''Cat'', ''Does it bark?'', ''no'']) = Some (Inr s')
       \<and> tree_in s' (initial_tree 0)
       \<and> collectAnimals (heap s') (getRoot s') [] = Some (Inr [''Dog'', ''Snake''])
       \<and> new \<noteq> old
       \<and> heap s' new = Some \<lparr>question = [], yes = None, no = None, animal = Some ''Cat''\<rparr>
       \<and> heap s' old = Some \<lparr>question = [], yes = None, no = None, animal = Some ''Dog''\<rparr>
       \<and> heap s' 4 = Some \<lparr>question = ''Does it bark?'', yes = Some old, no = Some new, animal = None\<rparr>)"
proof -
  let ?s = "two_trees [''Cat'', ''Does it bark?'', ''no'']"
  have t: "tree_in ?s (initial_tree 0)" by (rule tree_in_two_trees)
  have u: "repr (heap ?s) (initial_tree 3)" by (rule repr_second_tree)
  have l: "(4, ''Dog'') \<in> set (leaves (initial_tree 3))" by (simp add: initial_tree_def)
  have a: "4 \<notin> set (addrs (initial_tree 0))" by (simp add: initial_tree_def)
  have c: "collectAnimals (heap ?s) (getRoot ?s) [] = Some (Inr [''Dog'', ''Snake''])"
    using collectAnimals_repr [of "heap ?s" "initial_tree 0" "[]"] t
    by (simp add: tree_in_def getRoot_def labels_def initial_tree_def)
  have i: "reply (stdin ?s) = ''Cat''" "reply (tl (stdin ?s)) = ''Does it bark?''"
    "reply (tl (tl (stdin ?s))) = ''no''" by (simp_all add: two_trees_def reply_def)
  from learn_foreign_leaf_leaves_tree [OF t u l a] obtain s' new old where
    "learnNewAnimal (Some 4) ?s = Some (Inr s')" "tree_in s' (initial_tree 0)"
    "collectAnimals (heap s') (getRoot s') [] = Some (Inr [''Dog'', ''Snake''])"
    "new \<noteq> old"
    "heap s' new = Some \<lparr>question = [], yes = None, no = None, animal = Some ''Cat''\<rparr>"
    "heap s' old = Some \<lparr>question = [], yes = None, no = None, animal = Some ''Dog''\<rparr>"
    "heap s' 4 = Some \<lparr>question = ''Does it bark?'', yes = Some old, no = Some new, animal = None\<rparr>"
    unfolding i c by auto
  with t u l a show ?thesis by blast
qed

text \<open>
  C3.  Right after the construction of the tree, and right after every call of
  \<^verbatim>\<open>resetToInitialState\<close> on a tree the program can have built (or on any well-formed
  tree in the store), the call has returned and the tree has the default shape: the root
  is a question node with the text "Is your animal warm or cold blooded?", its \<open>yes\<close>
  child is a leaf holding Dog, its \<open>no\<close> child is a leaf holding Snake, and
  \<^verbatim>\<open>collectAnimals\<close> yields exactly Dog, Snake in that order.
\<close>

theorem default_shape_after_construction_and_reset:
  "(\<exists>s0. AnimalTree inp = Some (Inr s0) \<and> default_shape s0) \<and>
   (reachable s \<or> tree_in s t \<longrightarrow>
      (\<exists>s'. resetToInitialState s = Some (Inr s') \<and> default_shape s'))"
proof (intro conjI impI)
  from AnimalTree_tree [of inp] obtain s0 where
    "AnimalTree inp = Some (Inr s0)" "tree_in s0 (initial_tree 0)" by blast
  then show "\<exists>s0. AnimalTree inp = Some (Inr s0) \<and> default_shape s0"
    using default_shape_initial_tree by blast
next
  assume "reachable s \<or> tree_in s t"
  then obtain u where "tree_in s u"
    using reachable_owns_all [of s] by (auto simp: owns_all_def)
  from resetToInitialState_tree [OF this] obtain s' where
    "resetToInitialState s = Some (Inr s')" "tree_in s' (initial_tree (brk s))" by blast
  then show "\<exists>s'. resetToInitialState s = Some (Inr s') \<and> default_shape s'"
    using default_shape_initial_tree by blast
qed

theorem default_shape_after_construction_and_reset_witness:
  "(\<exists>s0. AnimalTree [] = Some (Inr s0) \<and> default_shape s0) \<and>
   reachable (fresh_game []) \<and>
   (\<exists>s'. resetToInitialState (fresh_game []) = Some (Inr s') \<and> default_shape s')"
  using default_shape_after_construction_and_reset [of "[]" "fresh_game []" "initial_tree 0"]
    reachable_fresh_game [of "[]"]
  by simp

text \<open>
  C4.  For every well-formed tree in the store and every leaf of it, \<^verbatim>\<open>learnNewAnimal\<close>
  on that leaf returns; the tree then has exactly two more nodes and one more leaf, and
  the store holds exactly two more \<^verbatim>\<open>Node\<close> objects: one more question node and one more
  leaf.  Neither \<^verbatim>\<open>learnNewAnimal\<close> nor a round of \<^verbatim>\<open>askQuestions\<close> nor
  \<^verbatim>\<open>listAnimals\<close> destroys a node (\<^verbatim>\<open>getRoot\<close> and \<^verbatim>\<open>collectAnimals\<close> do not write
  to the store at all).
\<close>

theorem learn_adds_two_nodes:
  assumes "tree_in s t"
  shows "((c, X) \<in> set (leaves t) \<longrightarrow>
            (\<exists>s' t'. learnNewAnimal (Some c) s = Some (Inr s')
               \<and> tree_in s' t'
               \<and> length (addrs t') = length (addrs t) + 2
               \<and> length (leaves t') = length (leaves t) + 1
               \<and> node_count s' = node_count s + 2
               \<and> question_count s' = question_count s + 1
               \<and> leaf_count s' = leaf_count s + 1
               \<and> (\<forall>a. heap s a \<noteq> None \<longrightarrow> heap s' a \<noteq> None)))
       \<and> (\<forall>s'. askQuestions (getRoot s) s = Some (Inr s') \<longrightarrow>
              (\<forall>a. heap s a \<noteq> None \<longrightarrow> heap s' a \<noteq> None))
       \<and> (\<forall>s'. listAnimals s = Some (Inr s') \<longrightarrow> heap s' = heap s)"
proof (intro conjI impI allI)
  assume c: "(c, X) \<in> set (leaves t)"
  from assms have r: "repr (heap s) t" and d: "distinct (addrs t)" by (simp_all add: tree_in_def)
  from repr_leaf [OF r c] obtain q0 where
    hc: "heap s c = Some \<lparr>question = q0, yes = None, no = None, animal = Some X\<rparr>" by blast
  from c have ct: "c \<in> set (addrs t)" by (rule leaves_in_addrs)
  with assms have lt: "c < brk s" by (rule tree_in_below)
  then have ne: "c \<noteq> brk s" "c \<noteq> Suc (brk s)" by auto
  note run = learnNewAnimal_state [OF hc ne]
  obtain s' where s': "learnNewAnimal (Some c) s = Some (Inr s')"
    and b': "brk s' = Suc (Suc (brk s))"
    and h': "\<exists>y n. heap s' = (heap s)(brk s \<mapsto> Node_animal (Some (reply (stdin s))),
                Suc (brk s) \<mapsto> Node_animal (Some X),
                c \<mapsto> \<lparr>question = reply (tl (stdin s)), yes = y, no = n, animal = None\<rparr>)"
    using run by (cases "reply (tl (tl (stdin s))) = ''yes''") auto
  from h' obtain y n where h: "heap s' = (heap s)(brk s \<mapsto> Node_animal (Some (reply (stdin s))),
                Suc (brk s) \<mapsto> Node_animal (Some X),
                c \<mapsto> \<lparr>question = reply (tl (stdin s)), yes = y, no = n, animal = None\<rparr>)" by blast
  note counts = learn_counts [OF hc lt h b']
  let ?new = "learned c (brk s) (reply (stdin s)) (reply (tl (stdin s))) (reply (tl (tl (stdin s)))) X"
  from learnNewAnimal_tree [OF assms c] s' have t': "tree_in s' (replace c ?new t)" by auto
  have fresh: "brk s \<notin> set (addrs t)" "Suc (brk s) \<notin> set (addrs t)"
    using tree_in_below [OF assms, of "brk s"] tree_in_below [OF assms, of "Suc (brk s)"] by auto
  have "Suc (length (addrs (replace c ?new t))) = length (addrs t) + length (addrs ?new)"
    using c d
  proof (rule length_addrs_replace)
    show "distinct (addrs ?new)" using ne by (auto simp: learned_def)
    show "set (addrs ?new) \<inter> set (addrs t) \<subseteq> {c}" using fresh by (auto simp: learned_def)
    show "c \<in> set (addrs ?new)" by (simp add: learned_def)
  qed
  then have la: "length (addrs (replace c ?new t)) = length (addrs t) + 2"
    by (simp add: learned_def split: if_splits)
  have "Suc (length (leaves (replace c ?new t))) = length (leaves t) + length (leaves ?new)"
    using c d by (rule length_leaves_replace)
  then have ll: "length (leaves (replace c ?new t)) = length (leaves t) + 1"
    by (simp add: learned_def split: if_splits)
  have "\<forall>a. heap s a \<noteq> None \<longrightarrow> heap s' a \<noteq> None" by (simp add: h)
  with s' t' la ll counts(2-4)
  show "\<exists>s' t'. learnNewAnimal (Some c) s = Some (Inr s')
               \<and> tree_in s' t'
               \<and> length (addrs t') = length (addrs t) + 2
               \<and> length (leaves t') = length (leaves t) + 1
               \<and> node_count s' = node_count s + 2
               \<and> question_count s' = question_count s + 1
               \<and> leaf_count s' = leaf_count s + 1
               \<and> (\<forall>a. heap s a \<noteq> None \<longrightarrow> heap s' a \<noteq> None)" by blast
next
  fix s' a
  assume run: "askQuestions (getRoot s) s = Some (Inr s')" and a: "heap s a \<noteq> None"
  from assms have g: "getRoot s = Some (addr_of t)" by (simp add: tree_in_def getRoot_def)
  from askQuestions_tree [OF assms] run
  have "heap s' = heap s \<or> dom (heap s') = dom (heap s) \<union> {brk s, Suc (brk s)}"
    unfolding g by auto
  with a show "heap s' a \<noteq> None" by (auto simp: dom_def)
next
  fix s'
  assume "listAnimals s = Some (Inr s')"
  with listAnimals_tree [OF assms] show "heap s' = heap s" by auto
qed

theorem learn_adds_two_nodes_witness:
  "tree_in (fresh_game [''Cat'', ''Does it bark?'', ''no'']) (initial_tree 0)
   \<and> (1, ''Dog'') \<in> set (leaves (initial_tree 0))
   \<and> node_count (fresh_game [''Cat'', ''Does it bark?'', ''no'']) = 3
   \<and> (\<exists>s'. learnNewAnimal (Some 1) (fresh_game [''Cat'', ''Does it bark?'', ''no'']) = Some (Inr s')
         \<and> node_count s' = 5)
   \<and> tree_in (fresh_game [''yes'', ''no'', ''Cat'', ''Does it bark?'', ''no'']) (initial_tree 0)
   \<and> askQuestions (getRoot (fresh_game [''yes'', ''no'', ''Cat'', ''Does it bark?'', ''no'']))
        (fresh_game [''yes'', ''no'', ''Cat'', ''Does it bark?'', ''no'']) = Some (Inr (cat_game []))
   \<and> heap (fresh_game [''yes'', ''no'', ''Cat'', ''Does it bark?'', ''no'']) 1 \<noteq> None
   \<and> heap (cat_game []) 1 \<noteq> None"
proof -
  let ?s = "fresh_game [''Cat'', ''Does it bark?'', ''no'']"
  let ?r = "fresh_game [''yes'', ''no'', ''Cat'', ''Does it bark?'', ''no'']"
  have t: "tree_in ?s (initial_tree 0)" and tr: "tree_in ?r (initial_tree 0)"
    by (rule tree_in_fresh_game)+
  have c: "(1, ''Dog'') \<in> set (leaves (initial_tree 0))" by (simp add: initial_tree_def)
  have n: "node_count ?s = 3"
    by (simp add: node_count_def nodes_def fresh_game_def upt_rec [of 0] upt_rec [of 1] upt_rec [of 2])
  from learn_adds_two_nodes [OF t, of 1 "''Dog''"] c obtain s' where
    "learnNewAnimal (Some 1) ?s = Some (Inr s')" "node_count s' = node_count ?s + 2"
    by blast
  moreover have h1: "heap ?r 1 \<noteq> None" by (simp add: fresh_game_def)
  moreover from learn_adds_two_nodes [OF tr] round_teaching_cat [of "[]"] h1
  have "heap (cat_game []) 1 \<noteq> None" by blast
  ultimately show ?thesis using t tr c n round_teaching_cat [of "[]"] by auto
qed

text \<open>
  C5.  Take any state the process can reach and any leaf \<open>c\<close> of its tree, at the end of
  the path \<open>p\<close> of \<open>yes\<close>/\<open>no\<close> pointers from the root: the depth of the leaf is the
  length of \<open>p\<close>.  When the user gives the answers of that path, the loop of
  \<^verbatim>\<open>askQuestions\<close> returns at \<open>c\<close>, having read exactly these answers and changed
  nothing but the console; the cursor takes one value per answer plus the root, starts at
  the root, ends at \<open>c\<close>, and never takes a value twice.  No path of pointers in the store
  leads from a node back to itself.
\<close>

theorem consistent_traversal_reaches_leaf:
  assumes "reachable s" and "walk (heap s) (getRoot s) p = Some c"
    and "heap s c = Some n" and "isLeaf n"
  shows "(\<exists>out. askQuestions_loop (getRoot s) (s\<lparr>stdin := map token p @ rest\<rparr>)
                = Some (Inr (Some c, s\<lparr>stdin := rest, stdout := out\<rparr>)))
       \<and> length (cursors (heap s) (getRoot s) (map token p)) = Suc (length p)
       \<and> hd (cursors (heap s) (getRoot s) (map token p)) = getRoot s
       \<and> last (cursors (heap s) (getRoot s) (map token p)) = Some c
       \<and> distinct (cursors (heap s) (getRoot s) (map token p))
       \<and> (\<forall>a q. heap s a \<noteq> None \<and> walk (heap s) (Some a) q = Some a \<longrightarrow> q = [])"
proof -
  from reachable_owns_all [OF assms(1)] obtain t where
    r: "repr (heap s) t" and g: "getRoot s = Some (addr_of t)" and d: "distinct (addrs t)"
    and dm: "dom (heap s) = set (addrs t)"
    by (auto simp: owns_all_def tree_in_def getRoot_def)
  from walk_descend [OF r, of p c] assms(2) g obtain t' where
    t': "descend t p = Some t'" "addr_of t' = c" by auto
  from descend_repr [OF t'(1) r] have "repr (heap s) t'" .
  with t'(2) assms(3,4) obtain q x where leaf: "t' = LeafAt c q x"
    by (cases t') (auto simp: isLeaf_def)
  let ?s = "s\<lparr>stdin := map token p @ rest\<rparr>"
  have "\<exists>out. askQuestions_loop (Some (addr_of t)) ?s
          = Some (Inr (Some c, ?s\<lparr>stdin := rest, stdout := out\<rparr>))"
    using r t'(1) unfolding leaf by (intro askQuestions_loop_descend) simp_all
  then have 1: "\<exists>out. askQuestions_loop (getRoot s) ?s
          = Some (Inr (Some c, s\<lparr>stdin := rest, stdout := out\<rparr>))"
    by (simp add: g)
  note c = cursors_trail [OF r t'(1)]
  from trail_facts [OF t'(1) d] have tf: "distinct (trail t p)" "length (trail t p) = Suc (length p)"
    "last (trail t p) = addr_of t'" "hd (trail t p) = addr_of t" by simp_all
  then have ne: "trail t p \<noteq> []" by auto
  have 2: "length (cursors (heap s) (getRoot s) (map token p)) = Suc (length p)"
    and 3: "hd (cursors (heap s) (getRoot s) (map token p)) = getRoot s"
    and 4: "last (cursors (heap s) (getRoot s) (map token p)) = Some c"
    and 5: "distinct (cursors (heap s) (getRoot s) (map token p))"
    using tf ne t'(2) by (simp_all add: c g hd_map last_map distinct_map)
  have 6: "q = []" if "heap s a \<noteq> None" "walk (heap s) (Some a) q = Some a" for a q
  proof -
    from that(1) dm have "a \<in> set (addrs t)" by auto
    from no_cycle [OF r d this that(2)] show ?thesis .
  qed
  from 1 2 3 4 5 6 show ?thesis by blast
qed

theorem consistent_traversal_reaches_leaf_witness:
  "reachable (cat_game [])
   \<and> walk (heap (cat_game [])) (getRoot (cat_game [])) [True, False] = Some 3
   \<and> heap (cat_game []) 3 = Some \<lparr>question = [], yes = None, no = None, animal = Some ''Cat''\<rparr>
   \<and> isLeaf \<lparr>question = [], yes = None, no = None, animal = Some ''Cat''\<rparr>
   \<and> (\<exists>out. askQuestions_loop (getRoot (cat_game [])) (cat_game [''yes'', ''no''])
                = Some (Inr (Some 3, (cat_game [])\<lparr>stdout := out\<rparr>)))
   \<and> length (cursors (heap (cat_game [])) (getRoot (cat_game [])) [''yes'', ''no'']) = 3
   \<and> distinct (cursors (heap (cat_game [])) (getRoot (cat_game [])) [''yes'', ''no''])"
proof -
  have w: "walk (heap (cat_game [])) (getRoot (cat_game [])) [True, False] = Some 3"
    by (simp add: cat_game_def getRoot_def)
  have h: "heap (cat_game []) 3 = Some \<lparr>question = [], yes = None, no = None, animal = Some ''Cat''\<rparr>"
    by (simp add: cat_game_def)
  have l: "isLeaf \<lparr>question = [], yes = None, no = None, animal = Some ''Cat''\<rparr>"
    by (simp add: isLeaf_def)
  have e: "(cat_game [])\<lparr>stdin := map token [True, False] @ []\<rparr> = cat_game [''yes'', ''no'']"
    by (simp add: cat_game_def token_def)
  from consistent_traversal_reaches_leaf [OF reachable_cat_game w h l, of "[]"]
  have "(\<exists>out. askQuestions_loop (getRoot (cat_game [])) (cat_game [''yes'', ''no''])
                = Some (Inr (Some 3, (cat_game [])\<lparr>stdin := [], stdout := out\<rparr>)))
   \<and> length (cursors (heap (cat_game [])) (getRoot (cat_game [])) [''yes'', ''no'']) = 3
   \<and> distinct (cursors (heap (cat_game [])) (getRoot (cat_game [])) [''yes'', ''no''])"
    unfolding e by (simp add: token_def)
  moreover have "(cat_game [])\<lparr>stdin := [], stdout := out\<rparr> = (cat_game [])\<lparr>stdout := out\<rparr>" for out
    by (simp add: cat_game_def)
  ultimately show ?thesis using reachable_cat_game [of "[]"] w h l by simp
qed

text \<open>
  C6.  The state is fresh, the user answers yes to the question, then "maybe" to the guess
  Dog, and has typed more: no, Cat, "Does it bark?", no.  \<^verbatim>\<open>askQuestions\<close> writes the
  request to answer yes or no and returns: the round is over with the tree as it was, and
  the rest of the input is unread.
\<close>

theorem confirmation_other_answer_ends_round:
  "askQuestions (getRoot (fresh_game [''yes'', ''maybe'', ''no'', ''Cat'', ''Does it bark?'', ''no'']))
     (fresh_game [''yes'', ''maybe'', ''no'', ''Cat'', ''Does it bark?'', ''no''])
   = Some (Inr ((fresh_game [''no'', ''Cat'', ''Does it bark?'', ''no''])
        \<lparr>stdout := prompt_question ''Is your animal warm or cold blooded?''
                   @ prompt_guess ''Dog'' @ please\<rparr>))"
proof -
  let ?s0 = "fresh_game [''yes'', ''maybe'', ''no'', ''Cat'', ''Does it bark?'', ''no'']"
  let ?s1 = "(print (prompt_question ''Is your animal warm or cold blooded?'') ?s0)
               \<lparr>stdin := [''maybe'', ''no'', ''Cat'', ''Does it bark?'', ''no'']\<rparr>"
  have h0: "heap ?s0 0 = Some \<lparr>question = ''Is your animal warm or cold blooded?'',
                yes = Some 1, no = Some 2, animal = None\<rparr>"
    and i0: "stdin ?s0 = ''yes'' # [''maybe'', ''no'', ''Cat'', ''Does it bark?'', ''no'']"
    by (simp_all add: fresh_game_def)
  have h1: "heap ?s1 1 = Some \<lparr>question = [], yes = None, no = None, animal = Some ''Dog''\<rparr>"
    by (simp add: fresh_game_def)
  have loop: "askQuestions_loop (Some 0) ?s0 = Some (Inr (Some 1, ?s1))"
    using askQuestions_loop_at_leaf [OF h1]
    by (subst askQuestions_loop_answer [OF h0 _ i0]) (simp_all add: isLeaf_def)
  show ?thesis
    unfolding getRoot_def
    using askQuestions_after_loop [OF _ h1, of "Some 0" ?s0 "''Dog''"] loop
    by (simp add: fresh_game_def reply_def print_def)
qed

text \<open>
  C7.  The cursor is at the root of a tree \<open>t\<close> held in the store; in a state the process
  can reach every live node is such a root.  Then the loop of \<^verbatim>\<open>askQuestions\<close> does what
  the traversing state of the specification does (\<open>spec_traversing\<close>): at a question node
  it writes the question and takes one answer; on yes it goes to the \<open>yes\<close> child, on no
  to the \<open>no\<close> child; on any other answer it writes the request to answer yes or no and
  stays at the same node, where it asks again; at a leaf it returns that leaf.  It returns
  exactly when the specification has a result, with the same leaf, the same answers left
  and the same text written, and with the store, the root and the allocator untouched.
\<close>

theorem traversing_follows_specification:
  "(repr (heap s) t \<longrightarrow>
      askQuestions_loop (Some (addr_of t)) s =
        (case spec_traversing t (stdin s) of None \<Rightarrow> None
         | Some (c, rest, out) \<Rightarrow>
             Some (Inr (Some c, s\<lparr>stdin := rest, stdout := stdout s @ out\<rparr>)))
      \<and> (\<forall>c' s'. askQuestions_loop (Some (addr_of t)) s = Some (Inr (c', s')) \<longrightarrow>
             heap s' = heap s \<and> root s' = root s \<and> brk s' = brk s))
   \<and> (reachable s \<and> heap s a \<noteq> None \<longrightarrow> (\<exists>u. addr_of u = a \<and> repr (heap s) u))"
proof (intro conjI impI allI)
  assume r: "repr (heap s) t"
  show eq: "askQuestions_loop (Some (addr_of t)) s =
        (case spec_traversing t (stdin s) of None \<Rightarrow> None
         | Some (c, rest, out) \<Rightarrow>
             Some (Inr (Some c, s\<lparr>stdin := rest, stdout := stdout s @ out\<rparr>)))"
    using r by (rule askQuestions_loop_spec)
  fix c' s'
  assume "askQuestions_loop (Some (addr_of t)) s = Some (Inr (c', s'))"
  with eq show "heap s' = heap s" "root s' = root s" "brk s' = brk s"
    by (auto split: option.splits)
next
  assume a: "reachable s \<and> heap s a \<noteq> None"
  with reachable_owns_all [of s] obtain t where
    "repr (heap s) t" "distinct (addrs t)" "dom (heap s) = set (addrs t)"
    by (auto simp: owns_all_def tree_in_def)
  moreover from this a have "a \<in> set (addrs t)" by auto
  ultimately show "\<exists>u. addr_of u = a \<and> repr (heap s) u"
    using subtree_at [of "heap s" t a] by blast
qed

theorem traversing_follows_specification_witness:
  "repr (heap (cat_game [''maybe'', ''yes'', ''Yes'', ''no'', ''later''])) cat_tree
   \<and> askQuestions_loop (Some 0) (cat_game [''maybe'', ''yes'', ''Yes'', ''no'', ''later''])
       = Some (Inr (Some 3, (cat_game [''maybe'', ''yes'', ''Yes'', ''no'', ''later''])
           \<lparr>stdin := [''later''],
            stdout := stdout (cat_game [''maybe'', ''yes'', ''Yes'', ''no'', ''later''])
             @ prompt_question ''Is your animal warm or cold blooded?'' @ please
             @ prompt_question ''Is your animal warm or cold blooded?''
             @ prompt_question ''Does it bark?'' @ please
             @ prompt_question ''Does it bark?''\<rparr>))
   \<and> reachable (cat_game []) \<and> heap (cat_game []) 1 \<noteq> None
   \<and> (\<exists>u. addr_of u = 1 \<and> repr (heap (cat_game [])) u)"
proof (intro conjI)
  let ?s = "cat_game [''maybe'', ''yes'', ''Yes'', ''no'', ''later'']"
  show r: "repr (heap ?s) cat_tree" using tree_in_cat_game by (simp add: tree_in_def)
  have a: "addr_of cat_tree = 0" by (simp add: cat_tree_def)
  have sp: "spec_traversing cat_tree (stdin ?s) =
      Some (3, [''later''], prompt_question ''Is your animal warm or cold blooded?'' @ please
             @ prompt_question ''Is your animal warm or cold blooded?''
             @ prompt_question ''Does it bark?'' @ please
             @ prompt_question ''Does it bark?'')"
    by (simp add: cat_tree_def cat_game_def)
  from traversing_follows_specification [of ?s cat_tree] r
  have "askQuestions_loop (Some (addr_of cat_tree)) ?s =
        (case spec_traversing cat_tree (stdin ?s) of None \<Rightarrow> None
         | Some (c, rest, out) \<Rightarrow>
             Some (Inr (Some c, ?s\<lparr>stdin := rest, stdout := stdout ?s @ out\<rparr>)))" by blast
  then show "askQuestions_loop (Some 0) ?s
       = Some (Inr (Some 3, ?s\<lparr>stdin := [''later''],
            stdout := stdout ?s
             @ prompt_question ''Is your animal warm or cold blooded?'' @ please
             @ prompt_question ''Is your animal warm or cold blooded?''
             @ prompt_question ''Does it bark?'' @ please
             @ prompt_question ''Does it bark?''\<rparr>))"
    unfolding a sp by simp
  show re: "reachable (cat_game [])" by (rule reachable_cat_game)
  show h: "heap (cat_game []) 1 \<noteq> None" by (simp add: cat_game_def)
  from traversing_follows_specification [of "cat_game []" _ 1] re h
  show "\<exists>u. addr_of u = 1 \<and> repr (heap (cat_game [])) u" by blast
qed

text \<open>
  C8.  In every state the process can reach, \<^verbatim>\<open>getRoot\<close> returns a non-null pointer to a
  live node, and every question node in the store has a non-null \<open>yes\<close> pointer and a
  non-null \<open>no\<close> pointer, each to a live node.
\<close>

theorem reachable_root_and_children:
  assumes "reachable s"
  shows "(\<exists>r n. getRoot s = Some r \<and> heap s r = Some n)
       \<and> (\<forall>a n. heap s a = Some n \<and> \<not> isLeaf n \<longrightarrow>
             (\<exists>y k ny nk. yes n = Some y \<and> no n = Some k
                \<and> heap s y = Some ny \<and> heap s k = Some nk))"
proof -
  from reachable_owns_all [OF assms] obtain t where
    r: "repr (heap s) t" and g: "getRoot s = Some (addr_of t)" and d: "dom (heap s) = set (addrs t)"
    by (auto simp: owns_all_def tree_in_def getRoot_def)
  from repr_live [OF r addr_of_in_addrs] g
  have "\<exists>r n. getRoot s = Some r \<and> heap s r = Some n" by auto
  moreover have "\<exists>y k ny nk. yes n = Some y \<and> no n = Some k \<and> heap s y = Some ny \<and> heap s k = Some nk"
    if "heap s a = Some n" "\<not> isLeaf n" for a n
  proof -
    from that(1) d have "a \<in> set (addrs t)" by auto
    from repr_children [OF r this that] show ?thesis .
  qed
  ultimately show ?thesis by blast
qed

theorem reachable_root_and_children_witness:
  "reachable (cat_game [])
   \<and> (\<exists>r n. getRoot (cat_game []) = Some r \<and> heap (cat_game []) r = Some n)
   \<and> heap (cat_game []) 1 = Some \<lparr>question = ''Does it bark?'', yes = Some 4, no = Some 3, animal = None\<rparr>
   \<and> \<not> isLeaf \<lparr>question = ''Does it bark?'', yes = Some 4, no = Some 3, animal = None\<rparr>
   \<and> (\<exists>y k ny nk. yes \<lparr>question = ''Does it bark?'', yes = Some 4, no = Some 3, animal = None\<rparr> = Some y
         \<and> no \<lparr>question = ''Does it bark?'', yes = Some 4, no = Some 3, animal = None\<rparr> = Some k
         \<and> heap (cat_game []) y = Some ny \<and> heap (cat_game []) k = Some nk)"
proof -
  have h: "heap (cat_game []) 1 = Some \<lparr>question = ''Does it bark?'', yes = Some 4, no = Some 3, animal = None\<rparr>"
    by (simp add: cat_game_def)
  have l: "\<not> isLeaf \<lparr>question = ''Does it bark?'', yes = Some 4, no = Some 3, animal = None\<rparr>"
    by (simp add: isLeaf_def)
  from reachable_root_and_children [OF reachable_cat_game, of "[]"] h l reachable_cat_game [of "[]"]
  show ?thesis by blast
qed

text \<open>
  C9.  \<open>labels t\<close> lists the labels of the leaves of \<open>t\<close> depth first, the \<open>yes\<close> subtree
  before the \<open>no\<close> subtree.  For every well-formed tree in the store, \<^verbatim>\<open>collectAnimals\<close>
  from the root returns, having appended exactly that list to the vector it was given.  It
  takes the store and gives back only the vector; its caller \<^verbatim>\<open>listAnimals\<close> returns with
  the store, the root and the allocator unchanged and the tree still in place, having
  written the labels in that order.
\<close>

theorem collectAnimals_depth_first:
  assumes "tree_in s t"
  shows "collectAnimals (heap s) (getRoot s) animals = Some (Inr (animals @ labels t))
       \<and> (\<exists>s'. listAnimals s = Some (Inr s') \<and> heap s' = heap s \<and> root s' = root s
              \<and> brk s' = brk s \<and> stdin s' = stdin s \<and> tree_in s' t
              \<and> stdout s' = stdout s @ msg_animals (labels t))"
proof
  from assms have r: "repr (heap s) t" and g: "getRoot s = Some (addr_of t)"
    by (simp_all add: tree_in_def getRoot_def)
  from collectAnimals_repr [OF r] show
    "collectAnimals (heap s) (getRoot s) animals = Some (Inr (animals @ labels t))"
    by (simp add: g)
  from listAnimals_tree [OF assms] assms
  show "\<exists>s'. listAnimals s = Some (Inr s') \<and> heap s' = heap s \<and> root s' = root s
              \<and> brk s' = brk s \<and> stdin s' = stdin s \<and> tree_in s' t
              \<and> stdout s' = stdout s @ msg_animals (labels t)"
    by (simp add: tree_in_io) (simp add: print_def)
qed

theorem collectAnimals_depth_first_witness:
  "tree_in (cat_game []) cat_tree
   \<and> collectAnimals (heap (cat_game [])) (getRoot (cat_game [])) [] = Some (Inr [''Dog'', ''Cat'', ''Snake''])
   \<and> (\<exists>s'. listAnimals (cat_game []) = Some (Inr s') \<and> heap s' = heap (cat_game [])
         \<and> root s' = root (cat_game []))"
  using collectAnimals_depth_first [OF tree_in_cat_game, of "[]" "[]"] tree_in_cat_game [of "[]"]
  by (auto simp: labels_def cat_tree_def)

text \<open>
  C10.  For every well-formed tree and every leaf of it, \<^verbatim>\<open>learnNewAnimal\<close> with any
  answer other than exactly yes (no, the empty string, any other token) returns, and returns
  the very state it returns for the answer no: the new name is on the \<open>no\<close> side and the
  old one on the \<open>yes\<close> side.  No token is rejected.
\<close>

theorem learn_other_answer_as_no:
  assumes "tree_in s t" and "(c, X) \<in> set (leaves t)"
    and "stdin s = newLabel # q # answer # rest"
    and "answer \<noteq> ''yes''"
  shows "\<exists>s' new old.
      learnNewAnimal (Some c) s = Some (Inr s')
    \<and> learnNewAnimal (Some c) (s\<lparr>stdin := newLabel # q # ''no'' # rest\<rparr>) = Some (Inr s')
    \<and> heap s new = None \<and> heap s old = None \<and> new \<noteq> old
    \<and> heap s' c = Some \<lparr>question = q, yes = Some old, no = Some new, animal = None\<rparr>
    \<and> heap s' new = Some \<lparr>question = [], yes = None, no = None, animal = Some newLabel\<rparr>
    \<and> heap s' old = Some \<lparr>question = [], yes = None, no = None, animal = Some X\<rparr>"
proof -
  from assms(1) have r: "repr (heap s) t" and top: "heap s (brk s) = None" "heap s (Suc (brk s)) = None"
    by (simp_all add: tree_in_def)
  from repr_leaf [OF r assms(2)] obtain q0 where
    hc: "heap s c = Some \<lparr>question = q0, yes = None, no = None, animal = Some X\<rparr>" by blast
  with top have ne: "c \<noteq> brk s" "c \<noteq> Suc (brk s)" by auto
  let ?s' = "s\<lparr>heap := (heap s)
          (brk s \<mapsto> Node_animal (Some newLabel), Suc (brk s) \<mapsto> Node_animal (Some X),
           c \<mapsto> \<lparr>question = q, yes = Some (Suc (brk s)), no = Some (brk s), animal = None\<rparr>),
      brk := Suc (Suc (brk s)), stdin := rest,
      stdout := stdout s @ msg_give_up @ prompt_distinguish newLabel X
        @ prompt_answer newLabel @ msg_got_it\<rparr>"
  have 1: "learnNewAnimal (Some c) s = Some (Inr ?s')"
    using assms(3,4) by (simp add: learnNewAnimal_state [OF hc ne] reply_def)
  have 2: "learnNewAnimal (Some c) (s\<lparr>stdin := newLabel # q # ''no'' # rest\<rparr>) = Some (Inr ?s')"
    using learnNewAnimal_state [of "s\<lparr>stdin := newLabel # q # ''no'' # rest\<rparr>" c q0 X] hc ne
    by (simp add: reply_def)
  have 3: "heap s (brk s) = None \<and> heap s (Suc (brk s)) = None \<and> brk s \<noteq> Suc (brk s)
    \<and> heap ?s' c = Some \<lparr>question = q, yes = Some (Suc (brk s)), no = Some (brk s), animal = None\<rparr>
    \<and> heap ?s' (brk s) = Some \<lparr>question = [], yes = None, no = None, animal = Some newLabel\<rparr>
    \<and> heap ?s' (Suc (brk s)) = Some \<lparr>question = [], yes = None, no = None, animal = Some X\<rparr>"
    using top ne by (simp add: Node_animal_def)
  from 1 2 3 show ?thesis by blast
qed

theorem learn_other_answer_as_no_witness:
  "tree_in (fresh_game [''Cat'', ''Does it bark?'', ''maybe'']) (initial_tree 0)
   \<and> (1, ''Dog'') \<in> set (leaves (initial_tree 0))
   \<and> stdin (fresh_game [''Cat'', ''Does it bark?'', ''maybe'']) = [''Cat'', ''Does it bark?'', ''maybe'']
   \<and> ''maybe'' \<noteq> ''yes''
   \<and> (\<exists>s' new old.
        learnNewAnimal (Some 1) (fresh_game [''Cat'', ''Does it bark?'', ''maybe'']) = Some (Inr s')
      \<and> learnNewAnimal (Some 1) (fresh_game [''Cat'', ''Does it bark?'', ''no'']) = Some (Inr s')
      \<and> new \<noteq> old
      \<and> heap s' 1 = Some \<lparr>question = ''Does it bark?'', yes = Some old, no = Some new, animal = None\<rparr>
      \<and> heap s' new = Some \<lparr>question = [], yes = None, no = None, animal = Some ''Cat''\<rparr>
      \<and> heap s' old = Some \<lparr>question = [], yes = None, no = None, animal = Some ''Dog''\<rparr>)"
proof -
  let ?s = "fresh_game [''Cat'', ''Does it bark?'', ''maybe'']"
  have t: "tree_in ?s (initial_tree 0)" by (rule tree_in_fresh_game)
  have c: "(1, ''Dog'') \<in> set (leaves (initial_tree 0))" by (simp add: initial_tree_def)
  have i: "stdin ?s = ''Cat'' # ''Does it bark?'' # ''maybe'' # []" by (simp add: fresh_game_def)
  have a: "''maybe'' \<noteq> ''yes''" by simp
  have e: "?s\<lparr>stdin := [''Cat'', ''Does it bark?'', ''no'']\<rparr> = fresh_game [''Cat'', ''Does it bark?'', ''no'']"
    by (simp add: fresh_game_def)
  from learn_other_answer_as_no [OF t c i a] obtain s' new old where
    "learnNewAnimal (Some 1) ?s = Some (Inr s')"
    "learnNewAnimal (Some 1) (fresh_game [''Cat'', ''Does it bark?'', ''no'']) = Some (Inr s')"
    "new \<noteq> old"
    "heap s' 1 = Some \<lparr>question = ''Does it bark?'', yes = Some old, no = Some new, animal = None\<rparr>"
    "heap s' new = Some \<lparr>question = [], yes = None, no = None, animal = Some ''Cat''\<rparr>"
    "heap s' old = Some \<lparr>question = [], yes = None, no = None, animal = Some ''Dog''\<rparr>"
    unfolding e by blast
  with t c i a show ?thesis by blast
qed

end
